theory Spec2Isabelle
  imports Complex_Main "HOL-Library.Word" "HOL-Library.List_Lexorder"
begin

unbundle bit_operations_syntax

section \<open>Bytes, Python sequences and exceptions\<close>

text \<open>
  A Python \<open>bytes\<close> value is a list of 8-bit words. With \<open>List_Lexorder\<close> the order on
  lists is the lexicographic one, a proper prefix being smaller, which is how Python
  compares \<open>bytes\<close>.
\<close>

type_synonym byte = "8 word"
type_synonym bytes = "byte list"

text \<open>The exceptions the modelled code can raise. \<open>NameError\<close> stands for its subclass
  \<open>UnboundLocalError\<close> too.\<close>

datatype error =
    AttributeError
  | NameError
  | IndexError
  | ZeroDivisionError
  | ValueError
  | FileNotFoundError

text \<open>\<open>range(n)\<close>, and \<open>range(0, n, step)\<close> for a positive step.\<close>

definition py_range :: "int \<Rightarrow> int list" where
  "py_range n = map int [0..<nat n]"

definition py_range_step :: "nat \<Rightarrow> nat \<Rightarrow> nat list" where
  "py_range_step n step = map (\<lambda>i. i * step) [0..<(n + step - 1) div step]"

text \<open>Where an index \<open>i\<close> lands in a sequence of length \<open>n\<close>: Python counts a negative
  index from the end; \<open>None\<close> is the \<open>IndexError\<close> of an index out of range.\<close>

definition py_index :: "nat \<Rightarrow> int \<Rightarrow> nat option" where
  "py_index n i =
     (if 0 \<le> i \<and> i < int n then Some (nat i)
      else if i < 0 \<and> - int n \<le> i then Some (nat (int n + i))
      else None)"

definition getitem :: "'a list \<Rightarrow> int \<Rightarrow> error + 'a" where
  "getitem xs i = (case py_index (length xs) i of None \<Rightarrow> Inl IndexError | Some j \<Rightarrow> Inr (xs ! j))"

definition setitem :: "'a list \<Rightarrow> int \<Rightarrow> 'a \<Rightarrow> error + 'a list" where
  "setitem xs i v =
     (case py_index (length xs) i of None \<Rightarrow> Inl IndexError | Some j \<Rightarrow> Inr (xs[j := v]))"

text \<open>The slice \<open>xs[a:b]\<close> for non-negative bounds: it never raises, and is cut at the end
  of \<open>xs\<close>.\<close>

definition slice :: "'a list \<Rightarrow> nat \<Rightarrow> nat \<Rightarrow> 'a list" where
  "slice xs a b = take (b - a) (drop a xs)"

section \<open>client\_core/bloomfilter.py\<close>

text \<open>
  The filter object: the number of hash functions and the bit array. \<open>mmh3.hash\<close> is a
  library function; the model takes it as a parameter \<open>mmh3_hash key seed\<close>, any function
  into the integers. The constructor computes the two fields in floating point and is not
  modelled: \<open>add\<close> and \<open>check\<close> are modelled for every hash count and every bit array.
\<close>

record BloomFilter =
  hash_count :: int
  bit_array :: "bool list"

text \<open>\<open>get_digest\<close>: the hash, masked to 32 bits, modulo the length of the bit array.\<close>

definition get_digest :: "(bytes \<Rightarrow> int \<Rightarrow> int) \<Rightarrow> BloomFilter \<Rightarrow> bytes \<Rightarrow> int \<Rightarrow> error + int" where
  "get_digest mmh3_hash bf key seed =
     (if length (bit_array bf) = 0 then Inl ZeroDivisionError
      else Inr ((mmh3_hash key seed AND 0xFFFFFFFF) mod int (length (bit_array bf))))"

text \<open>\<open>BloomFilter_add\<close>: the loop over the seeds \<open>range(self.hash_count)\<close>, setting one bit each.\<close>

fun add_loop :: "(bytes \<Rightarrow> int \<Rightarrow> int) \<Rightarrow> bytes \<Rightarrow> int list \<Rightarrow> BloomFilter \<Rightarrow> error + BloomFilter" where
  "add_loop mmh3_hash key [] bf = Inr bf"
| "add_loop mmh3_hash key (i # seeds) bf =
     (case get_digest mmh3_hash bf key i of
        Inl e \<Rightarrow> Inl e
      | Inr digest \<Rightarrow>
          (case setitem (bit_array bf) digest True of
             Inl e \<Rightarrow> Inl e
           | Inr ba \<Rightarrow> add_loop mmh3_hash key seeds (bf\<lparr>bit_array := ba\<rparr>)))"

definition BloomFilter_add :: "(bytes \<Rightarrow> int \<Rightarrow> int) \<Rightarrow> BloomFilter \<Rightarrow> bytes \<Rightarrow> error + BloomFilter" where
  "BloomFilter_add mmh3_hash bf key = add_loop mmh3_hash key (py_range (hash_count bf)) bf"

text \<open>\<open>BloomFilter_check\<close>: false at the first seed whose bit is clear, true when none is.\<close>

fun check_loop :: "(bytes \<Rightarrow> int \<Rightarrow> int) \<Rightarrow> bytes \<Rightarrow> int list \<Rightarrow> BloomFilter \<Rightarrow> error + bool" where
  "check_loop mmh3_hash key [] bf = Inr True"
| "check_loop mmh3_hash key (i # seeds) bf =
     (case get_digest mmh3_hash bf key i of
        Inl e \<Rightarrow> Inl e
      | Inr digest \<Rightarrow>
          (case getitem (bit_array bf) digest of
             Inl e \<Rightarrow> Inl e
           | Inr b \<Rightarrow> if \<not> b then Inr False else check_loop mmh3_hash key seeds bf))"

definition BloomFilter_check :: "(bytes \<Rightarrow> int \<Rightarrow> int) \<Rightarrow> BloomFilter \<Rightarrow> bytes \<Rightarrow> error + bool" where
  "BloomFilter_check mmh3_hash bf key = check_loop mmh3_hash key (py_range (hash_count bf)) bf"

text \<open>A sequence of \<open>BloomFilter_add\<close> calls on one filter, stopping at the first exception.\<close>

fun add_all :: "(bytes \<Rightarrow> int \<Rightarrow> int) \<Rightarrow> BloomFilter \<Rightarrow> bytes list \<Rightarrow> error + BloomFilter" where
  "add_all mmh3_hash bf [] = Inr bf"
| "add_all mmh3_hash bf (key # keys) =
     (case BloomFilter_add mmh3_hash bf key of
        Inl e \<Rightarrow> Inl e
      | Inr bf' \<Rightarrow> add_all mmh3_hash bf' keys)"

text \<open>The order on bit arrays of one length: every bit set on the left is set on the
  right.\<close>

definition bits_le :: "bool list \<Rightarrow> bool list \<Rightarrow> bool" where
  "bits_le xs ys \<longleftrightarrow> length xs = length ys \<and> (\<forall>i < length xs. xs ! i \<longrightarrow> ys ! i)"

section \<open>server\_core/memtable.py\<close>

text \<open>
  The memtable is a red-black tree of nodes linked by \<open>left\<close>, \<open>right\<close> and \<open>parent\<close>
  references, with one shared black sentinel \<open>MemTable.NIL\<close> for every missing child.
  The model keeps the tree as a value: \<open>NIL\<close> is the sentinel and \<open>Node red left key right\<close>
  a node object. A variable of the source that points to a node inside the tree is the
  subtree at that node together with its path to the root: one \<open>frame\<close> per ancestor,
  nearest first, recording on which side of the ancestor the node hangs (what
  \<open>node is node.parent.left\<close> tests), the ancestor's colour and key, and the ancestor's
  other child. So \<open>node.parent\<close> is the first frame, \<open>node.parent.parent\<close> the second,
  and \<open>node is self.root\<close> is the empty path.
\<close>

datatype tree = NIL | Node bool tree bytes tree

datatype side = L | R

datatype frame = Frame side bool bytes tree

record MemTable =
  root :: tree
  elements :: int

definition MemTable_init :: MemTable where
  "MemTable_init = \<lparr>root = NIL, elements = 0\<rparr>"

text \<open>The attribute \<open>red\<close>; the sentinel is black.\<close>

fun is_red :: "tree \<Rightarrow> bool" where
  "is_red NIL = False"
| "is_red (Node c l k r) = c"

text \<open>The assignment \<open>node.red = c\<close>. The source never assigns the sentinel's colour a
  new value.\<close>

fun set_red :: "bool \<Rightarrow> tree \<Rightarrow> tree" where
  "set_red c NIL = NIL"
| "set_red c (Node c' l k r) = Node c l k r"

text \<open>The ancestor of a frame with the subtree \<open>t\<close> as its child on the frame's side, and
  the whole tree around a subtree.\<close>

fun plug :: "frame \<Rightarrow> tree \<Rightarrow> tree" where
  "plug (Frame L c k r) t = Node c t k r"
| "plug (Frame R c k l) t = Node c l k t"

fun rebuild :: "frame list \<Rightarrow> tree \<Rightarrow> tree" where
  "rebuild [] t = t"
| "rebuild (f # path) t = rebuild path (plug f t)"

text \<open>
  \<open>left_rotate(node)\<close> and \<open>right_rotate(node)\<close>, as the subtree that takes the place of
  \<open>node\<close> under its parent (or as the root): \<open>new_parent\<close> on top, \<open>node\<close> its child. When
  \<open>new_parent\<close> is the sentinel, \<open>new_parent.left\<close> is \<open>None\<close> and the assignment to its
  \<open>parent\<close> raises \<open>AttributeError\<close>.
\<close>

fun right_rotate :: "tree \<Rightarrow> error + tree" where
  "right_rotate (Node c (Node lc ll lk lr) k r) = Inr (Node lc ll lk (Node c lr k r))"
| "right_rotate (Node c NIL k r) = Inl AttributeError"
| "right_rotate NIL = Inl AttributeError"

fun left_rotate :: "tree \<Rightarrow> error + tree" where
  "left_rotate (Node c l k (Node rc rl rk rr)) = Inr (Node rc (Node c l k rl) rk rr)"
| "left_rotate (Node c l k NIL) = Inl AttributeError"
| "left_rotate NIL = Inl AttributeError"

subsection \<open>MemTable_insert\<close>

text \<open>
  The search loop of \<open>MemTable_insert\<close>: \<open>None\<close> when the key is found (\<open>return False\<close>), else the
  path of the sentinel position the loop stops at, whose first frame is \<open>parent\<close>.
\<close>

fun insert_search :: "bytes \<Rightarrow> tree \<Rightarrow> frame list \<Rightarrow> frame list option" where
  "insert_search key NIL path = Some path"
| "insert_search key (Node c l k r) path =
     (if key = k then None
      else if key < k then insert_search key l (Frame L c k r # path)
      else insert_search key r (Frame R c k l # path))"

text \<open>
  \<open>fix_insert(node)\<close>, returning the tree at \<open>self.root\<close> when the loop is left. With a red
  parent that is the root, \<open>grandparent\<close> is \<open>None\<close> and \<open>grandparent.left\<close> raises
  \<open>AttributeError\<close>. In the rotation case the subtree that replaces the grandparent has
  \<open>node.parent\<close> on top, which takes the grandparent's colour, and the grandparent, now red,
  below it; \<open>node\<close> is the child on the other side, and the loop goes on from there.
\<close>

fun fix_insert :: "frame list \<Rightarrow> tree \<Rightarrow> error + tree" where
  "fix_insert [] node = Inr (set_red False node)"
| "fix_insert [Frame s c k t] node =
     (if c then Inl AttributeError
      else Inr (set_red False (plug (Frame s c k t) node)))"
| "fix_insert (Frame s c k t # Frame gs gc gk uncle # path) node =
     (if \<not> c then Inr (set_red False (rebuild (Frame s c k t # Frame gs gc gk uncle # path) node))
      else if gs = L then
        (if is_red uncle then
           fix_insert path
             (Node True (set_red False (plug (Frame s c k t) node)) gk (set_red False uncle))
         else
           (case (if s = R then left_rotate (plug (Frame s c k t) node)
                  else Inr (plug (Frame s c k t) node)) of
              Inl e \<Rightarrow> Inl e
            | Inr parent \<Rightarrow>
                (case right_rotate (Node gc parent gk uncle) of
                   Inl e \<Rightarrow> Inl e
                 | Inr NIL \<Rightarrow> Inl AttributeError
                 | Inr (Node pc n pk grandparent) \<Rightarrow>
                     fix_insert (Frame L gc pk (set_red True grandparent) # path) n)))
      else
        (if is_red uncle then
           fix_insert path
             (Node True (set_red False uncle) gk (set_red False (plug (Frame s c k t) node)))
         else
           (case (if s = L then right_rotate (plug (Frame s c k t) node)
                  else Inr (plug (Frame s c k t) node)) of
              Inl e \<Rightarrow> Inl e
            | Inr parent \<Rightarrow>
                (case left_rotate (Node gc uncle gk parent) of
                   Inl e \<Rightarrow> Inl e
                 | Inr NIL \<Rightarrow> Inl AttributeError
                 | Inr (Node pc grandparent pk n) \<Rightarrow>
                     fix_insert (Frame R gc pk (set_red True grandparent) # path) n))))"

text \<open>
  \<open>MemTable_insert(key)\<close>: the returned flag and the memtable after the call. With
  \<open>elements \<noteq> 0\<close> and the sentinel as root the loop is skipped, \<open>parent\<close> stays \<open>None\<close>
  and \<open>parent.key\<close> raises. The new red node is hung on the side \<open>key < parent.key\<close>
  names, which is the side the search left \<open>parent\<close> on.
\<close>

definition MemTable_insert :: "MemTable \<Rightarrow> bytes \<Rightarrow> error + (bool \<times> MemTable)" where
  "MemTable_insert m key =
     (if elements m = 0 then Inr (True, \<lparr>root = Node False NIL key NIL, elements = 1\<rparr>)
      else
        (case insert_search key (root m) [] of
           None \<Rightarrow> Inr (False, m)
         | Some [] \<Rightarrow> Inl AttributeError
         | Some (Frame s c k t # path) \<Rightarrow>
             (case fix_insert (Frame (if key < k then L else R) c k t # path)
                     (Node True NIL key NIL) of
                Inl e \<Rightarrow> Inl e
              | Inr t' \<Rightarrow> Inr (True, \<lparr>root = t', elements = elements m + 1\<rparr>))))"

subsection \<open>MemTable_get, MemTable_contains, iteration and range lookup\<close>

fun get_loop :: "bytes \<Rightarrow> tree \<Rightarrow> bytes option" where
  "get_loop key NIL = None"
| "get_loop key (Node c l k r) =
     (if key = k then Some k else if key < k then get_loop key l else get_loop key r)"

definition MemTable_get :: "MemTable \<Rightarrow> bytes \<Rightarrow> bytes option" where
  "MemTable_get m key = get_loop key (root m)"

definition MemTable_contains :: "MemTable \<Rightarrow> bytes \<Rightarrow> bool" where
  "MemTable_contains m key \<longleftrightarrow> MemTable_get m key \<noteq> None"

definition MemTable_len :: "MemTable \<Rightarrow> int" where
  "MemTable_len m = elements m"

text \<open>\<open>__iter__\<close>: the keys the generator yields, in the order it yields them.\<close>

fun iter_traverse :: "tree \<Rightarrow> bytes list" where
  "iter_traverse NIL = []"
| "iter_traverse (Node c l k r) = iter_traverse l @ [k] @ iter_traverse r"

definition MemTable_iter :: "MemTable \<Rightarrow> bytes list" where
  "MemTable_iter m = iter_traverse (root m)"

text \<open>\<open>MemTable_range_lookup\<close>: \<open>results\<close> is the bytearray the traversal extends with each key in
  range.\<close>

fun range_lookup_traverse :: "tree \<Rightarrow> bytes \<Rightarrow> bytes \<Rightarrow> bytes \<Rightarrow> bytes" where
  "range_lookup_traverse NIL lower_bound upper_bound results = results"
| "range_lookup_traverse (Node c l k r) lower_bound upper_bound results =
     (let results1 = (if k > lower_bound
                      then range_lookup_traverse l lower_bound upper_bound results
                      else results);
          results2 = (if lower_bound \<le> k \<and> k \<le> upper_bound then results1 @ k else results1)
      in if k < upper_bound
         then range_lookup_traverse r lower_bound upper_bound results2
         else results2)"

definition MemTable_range_lookup :: "MemTable \<Rightarrow> bytes \<Rightarrow> bytes \<Rightarrow> bytes" where
  "MemTable_range_lookup m lower_bound upper_bound =
     range_lookup_traverse (root m) lower_bound upper_bound []"

text \<open>A sequence of \<open>MemTable_insert\<close> calls on one memtable: the flags returned, in order, and the
  memtable after the last call.\<close>

fun insert_all :: "MemTable \<Rightarrow> bytes list \<Rightarrow> error + (bool list \<times> MemTable)" where
  "insert_all m [] = Inr ([], m)"
| "insert_all m (key # keys) =
     (case MemTable_insert m key of
        Inl e \<Rightarrow> Inl e
      | Inr (b, m') \<Rightarrow>
          (case insert_all m' keys of
             Inl e \<Rightarrow> Inl e
           | Inr (bs, m'') \<Rightarrow> Inr (b # bs, m'')))"


subsection \<open>MemTable_remove\<close>

text \<open>The search loop of \<open>MemTable_remove\<close>: the node it stops at, the sentinel when the key is
  absent, and the path of that node.\<close>

fun remove_search :: "bytes \<Rightarrow> tree \<Rightarrow> frame list \<Rightarrow> frame list \<times> tree" where
  "remove_search key NIL path = (path, NIL)"
| "remove_search key (Node c l k r) path =
     (if key = k then (path, Node c l k r)
      else if key < k then remove_search key l (Frame L c k r # path)
      else remove_search key r (Frame R c k l # path))"

text \<open>
  \<open>node_successor(node)\<close>: after \<open>node = node.right\<close> the loop tests
  \<open>node.left is not MemTable.NIL\<close>, and its body reads \<open>current\<close>, a local variable that is
  never assigned: the first pass through the body raises \<open>UnboundLocalError\<close>, a
  \<open>NameError\<close>. The body runs when the right child has a left child, and also when the right
  child is the sentinel, whose \<open>left\<close> is \<open>None\<close>. On the sentinel itself \<open>node.right\<close> is
  \<open>None\<close> and \<open>node.left\<close> raises \<open>AttributeError\<close>.
\<close>

fun node_successor :: "tree \<Rightarrow> error + tree" where
  "node_successor NIL = Inl AttributeError"
| "node_successor (Node c l k NIL) = Inl NameError"
| "node_successor (Node c l k (Node rc NIL rk rr)) = Inr (Node rc NIL rk rr)"
| "node_successor (Node c l k (Node rc (Node lc ll lk lr) rk rr)) = Inl NameError"

text \<open>\<open>delete_node(node)\<close> for the node at a path: its parent with the sentinel in its
  place. The root has \<open>parent = None\<close>, and \<open>node.parent.left\<close> raises.\<close>

fun delete_node :: "frame list \<Rightarrow> error + tree" where
  "delete_node [] = Inl AttributeError"
| "delete_node (f # path) = Inr (plug f NIL)"

text \<open>
  \<open>fix_double_black(node)\<close>, returning the tree at \<open>self.root\<close> when the loop returns.
  \<open>sibling\<close> is the other child of the first frame; when it is the sentinel,
  \<open>sibling.left\<close> is \<open>None\<close> and \<open>sibling.left.red\<close> raises. The loop need not be left, so
  the result is optional: \<open>None\<close> is a loop that runs forever. The branches are in the
  order of the source; the rotations are the calls the source makes, also where it turns
  the parent away from the sibling.
\<close>

partial_function (option) fix_double_black :: "frame list \<Rightarrow> tree \<Rightarrow> (error + tree) option" where
  "fix_double_black path node =
     (case path of
        [] \<Rightarrow> Some (Inr node)
      | Frame s pc pk sibling # rest \<Rightarrow>
          (case sibling of
             NIL \<Rightarrow> Some (Inl AttributeError)
           | Node sc sl sk sr \<Rightarrow>
               if sc then
                 (if s = L then
                    (case left_rotate (Node True node pk (Node False sl sk sr)) of
                       Inr (Node tc (Node c2 n k2 x) tk y) \<Rightarrow>
                         fix_double_black (Frame L c2 k2 x # Frame L tc tk y # rest) n
                     | Inr _ \<Rightarrow> Some (Inl AttributeError)
                     | Inl e \<Rightarrow> Some (Inl e))
                  else
                    (case right_rotate (Node True (Node False sl sk sr) pk node) of
                       Inr (Node tc y tk (Node c2 x k2 n)) \<Rightarrow>
                         fix_double_black (Frame R c2 k2 x # Frame R tc tk y # rest) n
                     | Inr _ \<Rightarrow> Some (Inl AttributeError)
                     | Inl e \<Rightarrow> Some (Inl e)))
               else if is_red sl then
                 (if is_red sr then
                    (if s = L then
                       (case left_rotate (Node False node pk
                                (Node pc (set_red False sl) sk (set_red False sr))) of
                          Inr (Node tc (Node c2 n k2 x) tk y) \<Rightarrow>
                            fix_double_black (Frame L c2 k2 x # Frame L tc tk y # rest) n
                        | Inr _ \<Rightarrow> Some (Inl AttributeError)
                        | Inl e \<Rightarrow> Some (Inl e))
                     else
                       (case right_rotate (Node False
                                (Node pc (set_red False sl) sk (set_red False sr)) pk node) of
                          Inr (Node tc y tk (Node c2 x k2 n)) \<Rightarrow>
                            fix_double_black (Frame R c2 k2 x # Frame R tc tk y # rest) n
                        | Inr _ \<Rightarrow> Some (Inl AttributeError)
                        | Inl e \<Rightarrow> Some (Inl e)))
                  else if s = L then
                    (case right_rotate (Node True (set_red False sl) sk sr) of
                       Inl e \<Rightarrow> Some (Inl e)
                     | Inr sibling' \<Rightarrow> fix_double_black (Frame L pc pk sibling' # rest) node)
                  else
                    (case left_rotate (Node False (Node pc (set_red False sl) sk sr) pk node) of
                       Inl e \<Rightarrow> Some (Inl e)
                     | Inr t \<Rightarrow> Some (Inr (rebuild rest t))))
               else if is_red sr then
                 (if s = R then
                    (case left_rotate (Node True sl sk (set_red False sr)) of
                       Inl e \<Rightarrow> Some (Inl e)
                     | Inr sibling' \<Rightarrow> fix_double_black (Frame R pc pk sibling' # rest) node)
                  else
                    (case right_rotate (Node False node pk (Node pc sl sk (set_red False sr))) of
                       Inl e \<Rightarrow> Some (Inl e)
                     | Inr t \<Rightarrow> Some (Inr (rebuild rest t))))
               else
                 (let node' = (case node of Node nc NIL nk NIL \<Rightarrow> NIL | _ \<Rightarrow> node);
                      parent = plug (Frame s pc pk (Node True sl sk sr)) node'
                  in if pc then Some (Inr (rebuild rest (set_red False parent)))
                     else fix_double_black rest parent)))"

declare fix_double_black.simps [code]

text \<open>
  \<open>fix_remove(node)\<close>. With two children the node takes its successor's key and the loop
  goes on at the successor, the right child when \<open>node_successor\<close> returns. Otherwise
  \<open>temp\<close> is the only child or the sentinel: a red leaf is unlinked, a black leaf goes to
  \<open>fix_double_black\<close>, and a node with one child takes the child's key and the child is
  unlinked.
\<close>

function fix_remove :: "frame list \<Rightarrow> tree \<Rightarrow> (error + tree) option" where
  "fix_remove path NIL = Some (Inl AttributeError)"
| "fix_remove path (Node c l k r) =
     (if l \<noteq> NIL \<and> r \<noteq> NIL then
        (case node_successor (Node c l k r) of
           Inl e \<Rightarrow> Some (Inl e)
         | Inr NIL \<Rightarrow> Some (Inl AttributeError)
         | Inr (Node tc ta tk tb) \<Rightarrow> fix_remove (Frame R c tk l # path) (Node tc ta tk tb))
      else
        (case (if l \<noteq> NIL then l else r) of
           NIL \<Rightarrow>
             (if c then
                (case delete_node path of
                   Inl e \<Rightarrow> Some (Inl e)
                 | Inr parent \<Rightarrow> Some (Inr (rebuild (tl path) parent)))
              else fix_double_black path (Node c l k r))
         | Node tc ta tk tb \<Rightarrow>
             Some (Inr (rebuild path
               (if l \<noteq> NIL then Node c NIL tk r else Node c l tk NIL)))))"
  by pat_completeness auto

termination fix_remove
  by (relation "measure (\<lambda>(path, t). size t)") (auto elim!: node_successor.elims)

definition MemTable_remove :: "MemTable \<Rightarrow> bytes \<Rightarrow> (error + bool \<times> MemTable) option" where
  "MemTable_remove m key =
     (case remove_search key (root m) [] of
        (path, NIL) \<Rightarrow> Some (Inr (False, m))
      | (path, Node c l k r) \<Rightarrow>
          (case fix_remove path (Node c l k r) of
             None \<Rightarrow> None
           | Some (Inl e) \<Rightarrow> Some (Inl e)
           | Some (Inr t) \<Rightarrow> Some (Inr (True, \<lparr>root = t, elements = elements m - 1\<rparr>))))"

subsection \<open>Notions for the verification of the memtable\<close>

text \<open>The keys of the tree around a path, in iteration order: those before the subtree
  at the path and those after it. \<open>root_black\<close> says that the root, the ancestor of the
  last frame, is black; \<open>side_ok\<close> that a frame's side is the one the comparison with
  \<open>key\<close> names; \<open>mt_inv\<close> is the invariant of a memtable between calls.\<close>

fun before :: "frame list \<Rightarrow> bytes list" where
  "before [] = []"
| "before (Frame L c k r # path) = before path"
| "before (Frame R c k l # path) = before path @ iter_traverse l @ [k]"

fun after :: "frame list \<Rightarrow> bytes list" where
  "after [] = []"
| "after (Frame L c k r # path) = [k] @ iter_traverse r @ after path"
| "after (Frame R c k l # path) = after path"

fun root_black :: "frame list \<Rightarrow> bool" where
  "root_black [] = True"
| "root_black [Frame s c k t] = (\<not> c)"
| "root_black (f # g # path) = root_black (g # path)"

definition mt_inv :: "MemTable \<Rightarrow> bool" where
  "mt_inv m \<longleftrightarrow>
     sorted_wrt (<) (MemTable_iter m) \<and> elements m = int (length (MemTable_iter m)) \<and> \<not> is_red (root m)"

fun side_ok :: "bytes \<Rightarrow> frame \<Rightarrow> bool" where
  "side_ok key (Frame s c k u) = (s = (if key < k then L else R))"

section \<open>constants.py\<close>

text \<open>
  Modelled from the spec: constants.py is imported by every module but is not among the
  sources. Its values are a parameter \<open>c\<close> of the functions that read them, named as the
  code names them (\<open>c.HASH_SIZE\<close>, \<open>c.HASHES_PER_IDX\<close>, ...); \<open>PARTITION_NUM\<close> maps the
  first byte of a hash, an integer from 0 to 255, to a partition. \<open>spec_constants\<close> holds
  the values the specification gives: keys of 32 bytes, prefixes of 4 bytes, 15625 hashes
  per index file, and 4 partitions chosen by the two high bits of the first byte.
\<close>

record constants =
  HASH_SIZE :: nat
  PREFIX_SIZE :: nat
  HASHES_PER_IDX :: int
  PARTITIONS :: int
  PARTITION_NUM :: "int \<Rightarrow> int"

definition spec_constants :: constants where
  "spec_constants =
     \<lparr>HASH_SIZE = 32, PREFIX_SIZE = 4, HASHES_PER_IDX = 15625, PARTITIONS = 4,
      PARTITION_NUM = (\<lambda>b. drop_bit 6 b)\<rparr>"

section \<open>The files of the server\<close>

text \<open>
  The directories \<open>data/db/partition{n}\<close> and the files
  \<open>data/log/write_ahead/partition{n}.bin\<close>, by their number \<open>n\<close>. A directory is \<open>None\<close>
  when it does not exist, and else the contents of \<open>idx_001.bin\<close>, \<open>idx_002.bin\<close>, ... in
  this order, up to the first number that is missing: the files every loop of the code
  visits, and the next free number is where a flush writes. A write-ahead log is \<open>None\<close>
  when the file does not exist.
\<close>

record filesystem =
  db :: "int \<Rightarrow> bytes list option"
  write_ahead :: "int \<Rightarrow> bytes option"

section \<open>server\_core/idx\_builder.py\<close>

text \<open>\<open>build_idx\<close> writes the hashes the memtable's iterator yields, one after the other;
  the result is the content of the file.\<close>

definition build_idx :: "MemTable \<Rightarrow> bytes" where
  "build_idx memtable = concat (MemTable_iter memtable)"

text \<open>\<open>flush_to_idx\<close> takes the first unused file number of the directory
  \<open>partition{partition}\<close> and writes the file there; opening it raises
  \<open>FileNotFoundError\<close> when the directory does not exist.\<close>

definition flush_to_idx :: "filesystem \<Rightarrow> MemTable \<Rightarrow> int \<Rightarrow> error + filesystem" where
  "flush_to_idx fs memtable partition_id =
     (case db fs partition_id of
        None \<Rightarrow> Inl FileNotFoundError
      | Some idx_files \<Rightarrow>
          Inr (fs\<lparr>db := (db fs)(partition_id \<mapsto> idx_files @ [build_idx memtable])\<rparr>))"

section \<open>server\_core/idx\_reader.py\<close>

text \<open>The loop of \<open>build_memtable_from_WAL\<close>: each key is inserted and the flag
  \<open>insert\<close> returns is dropped.\<close>

fun insert_each :: "MemTable \<Rightarrow> bytes list \<Rightarrow> error + MemTable" where
  "insert_each memtable [] = Inr memtable"
| "insert_each memtable (key # keys) =
     (case MemTable_insert memtable key of
        Inl e \<Rightarrow> Inl e
      | Inr (b, memtable') \<Rightarrow> insert_each memtable' keys)"

text \<open>The slices \<open>mm[offset:offset + c.HASH_SIZE]\<close> for \<open>offset\<close> in
  \<open>range(0, len(mm), c.HASH_SIZE)\<close>.\<close>

definition wal_records :: "constants \<Rightarrow> bytes \<Rightarrow> bytes list" where
  "wal_records c mm =
     map (\<lambda>offset. slice mm offset (offset + HASH_SIZE c)) (py_range_step (length mm) (HASH_SIZE c))"

text \<open>
  \<open>build_memtable_from_WAL(partition_num)\<close>: the memtable, and the files after
  \<open>wal_path.touch\<close>, which creates an empty log when there is none. An empty log gives an
  empty memtable at once; \<open>range\<close> raises \<open>ValueError\<close> for a step of zero.
\<close>

definition build_memtable_from_WAL ::
  "constants \<Rightarrow> filesystem \<Rightarrow> int \<Rightarrow> error + (MemTable \<times> filesystem)" where
  "build_memtable_from_WAL c fs partition_num =
     (let mm = (case write_ahead fs partition_num of None \<Rightarrow> [] | Some content \<Rightarrow> content);
          fs' = fs\<lparr>write_ahead := (write_ahead fs)(partition_num \<mapsto> mm)\<rparr>
      in if length mm = 0 then Inr (MemTable_init, fs')
         else if HASH_SIZE c = 0 then Inl ValueError
         else (case insert_each MemTable_init (wal_records c mm) of
                 Inl e \<Rightarrow> Inl e
               | Inr memtable \<Rightarrow> Inr (memtable, fs')))"

text \<open>An \<open>IndexReader\<close> holds the path of its directory, here the partition number in the
  path.\<close>

record IndexReader =
  dir_path :: int

definition IndexReader_init :: "int \<Rightarrow> IndexReader" where
  "IndexReader_init partition_number = \<lparr>dir_path = partition_number\<rparr>"

text \<open>The index files a reader's loops visit: none when the directory is missing.\<close>

definition idx_files_of :: "filesystem \<Rightarrow> IndexReader \<Rightarrow> bytes list" where
  "idx_files_of fs reader = (case db fs (dir_path reader) of None \<Rightarrow> [] | Some fl \<Rightarrow> fl)"

text \<open>The hash at index \<open>mid\<close> of a file: \<open>data[start:start + hash_size]\<close> with
  \<open>start = mid * hash_size\<close>. The indices of the searches are never negative.\<close>

definition hash_at :: "nat \<Rightarrow> bytes \<Rightarrow> int \<Rightarrow> bytes" where
  "hash_at hash_size data mid =
     slice data (nat (mid * int hash_size)) (nat (mid * int hash_size + int hash_size))"

text \<open>The two binary searches of \<open>range_lookup\<close>, each a loop \<open>while low < high\<close> that
  returns \<open>low\<close>. \<open>(low + high) >> 1\<close> is \<open>drop_bit 1\<close>.\<close>

function lower_search :: "nat \<Rightarrow> bytes \<Rightarrow> bytes \<Rightarrow> int \<Rightarrow> int \<Rightarrow> int" where
  "lower_search hash_size data lower_bound low high =
     (if low < high then
        (let mid = drop_bit 1 (low + high);
             url_hash = hash_at hash_size data mid
         in if lower_bound > url_hash
            then lower_search hash_size data lower_bound (mid + 1) high
            else lower_search hash_size data lower_bound low mid)
      else low)"
  by pat_completeness auto
termination
  by (relation "measure (\<lambda>(hash_size, data, lower_bound, low, high). nat (high - low))")
     (auto simp: drop_bit_eq_div)

declare lower_search.simps [simp del]

function upper_search :: "nat \<Rightarrow> bytes \<Rightarrow> bytes \<Rightarrow> int \<Rightarrow> int \<Rightarrow> int" where
  "upper_search hash_size data upper_bound low high =
     (if low < high then
        (let mid = drop_bit 1 (low + high);
             url_hash = hash_at hash_size data mid
         in if upper_bound \<ge> url_hash
            then upper_search hash_size data upper_bound (mid + 1) high
            else upper_search hash_size data upper_bound low mid)
      else low)"
  by pat_completeness auto
termination
  by (relation "measure (\<lambda>(hash_size, data, upper_bound, low, high). nat (high - low))")
     (auto simp: drop_bit_eq_div)

declare upper_search.simps [simp del]

text \<open>What one file adds to \<open>results\<close> in \<open>range_lookup\<close>: the slice between the two
  indices found, both searched in \<open>0 .. hashes_per_idx - 1\<close>.\<close>

definition range_lookup_file :: "constants \<Rightarrow> bytes \<Rightarrow> bytes \<Rightarrow> bytes \<Rightarrow> bytes" where
  "range_lookup_file c data lower_bound upper_bound =
     (let lower_index = lower_search (HASH_SIZE c) data lower_bound 0 (HASHES_PER_IDX c - 1);
          upper_index = upper_search (HASH_SIZE c) data upper_bound 0 (HASHES_PER_IDX c - 1)
      in slice data (nat (lower_index * int (HASH_SIZE c))) (nat (upper_index * int (HASH_SIZE c))))"

definition IndexReader_range_lookup ::
  "constants \<Rightarrow> filesystem \<Rightarrow> IndexReader \<Rightarrow> bytes \<Rightarrow> bytes \<Rightarrow> bytes" where
  "IndexReader_range_lookup c fs reader lower_bound upper_bound =
     concat (map (\<lambda>data. range_lookup_file c data lower_bound upper_bound) (idx_files_of fs reader))"

text \<open>The binary search of \<open>contains_hash\<close> in one file, a loop \<open>while low <= high\<close>:
  true when it returns \<open>True\<close>, false when the loop ends.\<close>

function contains_search :: "nat \<Rightarrow> bytes \<Rightarrow> bytes \<Rightarrow> int \<Rightarrow> int \<Rightarrow> bool" where
  "contains_search hash_size data key low high =
     (if low \<le> high then
        (let mid = drop_bit 1 (low + high);
             url_hash = hash_at hash_size data mid
         in if key = url_hash then True
            else if key < url_hash then contains_search hash_size data key low (mid - 1)
            else contains_search hash_size data key (mid + 1) high)
      else False)"
  by pat_completeness auto
termination
  by (relation "measure (\<lambda>(hash_size, data, key, low, high). nat (high - low + 1))")
     (auto simp: drop_bit_eq_div)

declare contains_search.simps [simp del]

fun contains_hash_files :: "constants \<Rightarrow> bytes list \<Rightarrow> bytes \<Rightarrow> bool" where
  "contains_hash_files c [] key = False"
| "contains_hash_files c (data # rest) key =
     (if contains_search (HASH_SIZE c) data key 0 (HASHES_PER_IDX c - 1) then True
      else contains_hash_files c rest key)"

definition IndexReader_contains_hash ::
  "constants \<Rightarrow> filesystem \<Rightarrow> IndexReader \<Rightarrow> bytes \<Rightarrow> bool" where
  "IndexReader_contains_hash c fs reader key = contains_hash_files c (idx_files_of fs reader) key"

text \<open>\<open>f.read(c.HASH_SIZE)\<close> until it returns nothing: the records of a file, the last
  one shorter when the length is not a multiple of the size.\<close>

function read_records :: "nat \<Rightarrow> bytes \<Rightarrow> bytes list" where
  "read_records n data =
     (if n = 0 \<or> data = [] then [] else take n data # read_records n (drop n data))"
  by pat_completeness auto
termination
  by (relation "measure (\<lambda>(n, data). length data)") auto

declare read_records.simps [simp del]

definition IndexReader_get_all_hash_prefixes :: "constants \<Rightarrow> filesystem \<Rightarrow> IndexReader \<Rightarrow> bytes" where
  "IndexReader_get_all_hash_prefixes c fs reader =
     concat (map (\<lambda>data. concat (map (take 4) (read_records (HASH_SIZE c) data)))
                 (idx_files_of fs reader))"

definition IndexReader_get_idx_file_amount :: "filesystem \<Rightarrow> IndexReader \<Rightarrow> int" where
  "IndexReader_get_idx_file_amount fs reader = int (length (idx_files_of fs reader))"

section \<open>server\_main.py\<close>

text \<open>
  The state of the application: the readers and memtables of \<open>request.app.state\<close>, and
  the files. The activity log and the locks are left out: the handlers run one at a time.
  A handler returns a response, or raises; the framework answers an exception that leaves
  a handler with status 500. A handler that returns \<open>None\<close> answers 200 with the body
  \<open>null\<close>.
\<close>

record Server =
  idx_readers :: "IndexReader list"
  memtables :: "MemTable list"
  files :: filesystem

datatype content = Text string | Octets bytes | Json_null

datatype response = Response int content

fun status_code :: "error + response \<Rightarrow> int" where
  "status_code (Inl e) = 500"
| "status_code (Inr (Response status body)) = status"

text \<open>The start of \<open>lifespan\<close>: a reader and a memtable for each of the numbers
  \<open>1 .. PARTITIONS\<close>, the memtables recovered from the write-ahead logs in this order.\<close>

fun recover_memtables ::
  "constants \<Rightarrow> filesystem \<Rightarrow> int list \<Rightarrow> error + (MemTable list \<times> filesystem)" where
  "recover_memtables c fs [] = Inr ([], fs)"
| "recover_memtables c fs (i # rest) =
     (case build_memtable_from_WAL c fs i of
        Inl e \<Rightarrow> Inl e
      | Inr (memtable, fs') \<Rightarrow>
          (case recover_memtables c fs' rest of
             Inl e \<Rightarrow> Inl e
           | Inr (ms, fs'') \<Rightarrow> Inr (memtable # ms, fs'')))"

definition lifespan :: "constants \<Rightarrow> filesystem \<Rightarrow> error + Server" where
  "lifespan c fs =
     (case recover_memtables c fs (map (\<lambda>i. i + 1) (py_range (PARTITIONS c))) of
        Inl e \<Rightarrow> Inl e
      | Inr (ms, fs') \<Rightarrow>
          Inr \<lparr>idx_readers = map (\<lambda>i. IndexReader_init (i + 1)) (py_range (PARTITIONS c)),
               memtables = ms, files = fs'\<rparr>)"

text \<open>
  \<open>submit_malicious_url\<close>, on the bytes of the \<open>url\<close> parameter: the response and the
  state after the request. \<open>url_hash[0]\<close> raises \<open>IndexError\<close> on empty bytes, and so do
  the two list accesses for a partition out of range. The memtable object is changed in
  place by \<open>insert\<close>. The flush writes to the directory \<open>partition{partition}\<close> and the
  log is the file \<open>partition{partition}.bin\<close>, both named by the number
  \<open>PARTITION_NUM\<close> returns; opening the log with mode \<open>w\<close> leaves it empty, with mode
  \<open>ab\<close> appends to it, and both create it when it is missing.
\<close>

definition already_blacklisted :: response where
  "already_blacklisted = Response 400 (Text ''Bad request: URL is already blacklisted'')"

definition submit_malicious_url :: "constants \<Rightarrow> Server \<Rightarrow> bytes \<Rightarrow> error + (response \<times> Server)" where
  "submit_malicious_url c st url_hash =
     (case url_hash of
        [] \<Rightarrow> Inl IndexError
      | b # _ \<Rightarrow>
          (let partition_id = PARTITION_NUM c (uint b) in
           case getitem (idx_readers st) partition_id of
             Inl e \<Rightarrow> Inl e
           | Inr reader \<Rightarrow>
               if IndexReader_contains_hash c (files st) reader url_hash
               then Inr (already_blacklisted, st)
               else
                 (case getitem (memtables st) partition_id of
                    Inl e \<Rightarrow> Inl e
                  | Inr memtable \<Rightarrow>
                      if MemTable_contains memtable url_hash
                      then Inr (already_blacklisted, st)
                      else
                        (case MemTable_insert memtable url_hash of
                           Inl e \<Rightarrow> Inl e
                         | Inr (flag, memtable') \<Rightarrow>
                             (case setitem (memtables st) partition_id memtable' of
                                Inl e \<Rightarrow> Inl e
                              | Inr ms \<Rightarrow>
                                  if MemTable_len memtable' \<ge> HASHES_PER_IDX c then
                                    (case flush_to_idx (files st) memtable' partition_id of
                                       Inl e \<Rightarrow> Inl e
                                     | Inr fs \<Rightarrow>
                                         Inr (Response 200 Json_null,
                                              st\<lparr>memtables := ms,
                                                 files := fs\<lparr>write_ahead :=
                                                   (write_ahead fs)(partition_id \<mapsto> [])\<rparr>\<rparr>))
                                  else
                                    Inr (Response 200 Json_null,
                                         st\<lparr>memtables := ms,
                                            files := (files st)\<lparr>write_ahead :=
                                              (write_ahead (files st))(partition_id \<mapsto>
                                                 (case write_ahead (files st) partition_id of
                                                    None \<Rightarrow> []
                                                  | Some wal \<Rightarrow> wal) @ url_hash)\<rparr>\<rparr>))))))"

text \<open>The two prefix handlers. They index the lists with \<open>partition - 1\<close> and have no
  other check of the parameter.\<close>

definition get_memtable_hash_prefixes :: "Server \<Rightarrow> int \<Rightarrow> error + response" where
  "get_memtable_hash_prefixes st partition_id =
     (case getitem (memtables st) (partition_id - 1) of
        Inl e \<Rightarrow> Inl e
      | Inr memtable \<Rightarrow> Inr (Response 200 (Octets (concat (map (take 4) (MemTable_iter memtable))))))"

definition get_idx_hash_prefixes :: "constants \<Rightarrow> Server \<Rightarrow> int \<Rightarrow> error + response" where
  "get_idx_hash_prefixes c st partition_id =
     (case getitem (idx_readers st) (partition_id - 1) of
        Inl e \<Rightarrow> Inl e
      | Inr reader \<Rightarrow>
          Inr (Response 200 (Octets (IndexReader_get_all_hash_prefixes c (files st) reader))))"

text \<open>A sequence of submissions, each on the state the one before left; it stops at
  the first exception and returns the responses in order.\<close>

fun submit_all :: "constants \<Rightarrow> Server \<Rightarrow> bytes list \<Rightarrow> error + (response list \<times> Server)" where
  "submit_all c st [] = Inr ([], st)"
| "submit_all c st (url_hash # rest) =
     (case submit_malicious_url c st url_hash of
        Inl e \<Rightarrow> Inl e
      | Inr (r, st') \<Rightarrow>
          (case submit_all c st' rest of
             Inl e \<Rightarrow> Inl e
           | Inr (rs, st'') \<Rightarrow> Inr (r # rs, st'')))"

subsection \<open>Notions for the verification of the server\<close>

text \<open>
  The hashes of an index file, in file order, and the format of an index file: exactly
  \<open>HASHES_PER_IDX\<close> hashes of \<open>HASH_SIZE\<close> bytes, strictly increasing.
\<close>

definition idx_keys :: "constants \<Rightarrow> bytes \<Rightarrow> bytes list" where
  "idx_keys c data = read_records (HASH_SIZE c) data"

definition idx_file_ok :: "constants \<Rightarrow> bytes \<Rightarrow> bool" where
  "idx_file_ok c data \<longleftrightarrow>
     int (length data) = HASHES_PER_IDX c * int (HASH_SIZE c) \<and> sorted_wrt (<) (idx_keys c data)"

section \<open>Verification: the Bloom filter\<close>

lemma digest_range:
  "get_digest h bf key i = Inr d \<Longrightarrow> 0 \<le> d \<and> d < int (length (bit_array bf))"
  by (auto simp: get_digest_def split: if_splits)

lemma setitem_ok: "0 \<le> d \<Longrightarrow> d < int (length xs) \<Longrightarrow> setitem xs d v = Inr (xs[nat d := v])"
  by (simp add: setitem_def py_index_def)

lemma getitem_ok: "0 \<le> d \<Longrightarrow> d < int (length xs) \<Longrightarrow> getitem xs d = Inr (xs ! nat d)"
  by (simp add: getitem_def py_index_def)


lemma bits_le_refl: "bits_le xs xs" by (simp add: bits_le_def)
lemma bits_le_trans: "bits_le xs ys \<Longrightarrow> bits_le ys zs \<Longrightarrow> bits_le xs zs"
  by (auto simp: bits_le_def)
lemma bits_le_update: "bits_le xs (xs[i := True])"
  by (cases "i < length xs") (auto simp: bits_le_def nth_list_update)

lemma add_loop_mono:
  "add_loop h key seeds bf = Inr bf' \<Longrightarrow>
     hash_count bf' = hash_count bf \<and> bits_le (bit_array bf) (bit_array bf')"
proof (induction seeds arbitrary: bf)
  case Nil
  then show ?case by (simp add: bits_le_refl)
next
  case (Cons i seeds)
  from Cons.prems obtain d ba where
    d: "get_digest h bf key i = Inr d" and ba: "setitem (bit_array bf) d True = Inr ba"
    and rest: "add_loop h key seeds (bf\<lparr>bit_array := ba\<rparr>) = Inr bf'"
    by (auto split: sum.splits)
  from digest_range[OF d] ba have "ba = (bit_array bf)[nat d := True]"
    by (simp add: setitem_ok)
  then have "bits_le (bit_array bf) ba" by (simp add: bits_le_update)
  with Cons.IH[OF rest] show ?case by (auto intro: bits_le_trans)
qed

lemma add_loop_total:
  "bit_array bf \<noteq> [] \<Longrightarrow> \<exists>bf'. add_loop h key seeds bf = Inr bf'"
proof (induction seeds arbitrary: bf)
  case Nil
  then show ?case by simp
next
  case (Cons i seeds)
  let ?d = "(h key i AND 0xFFFFFFFF) mod int (length (bit_array bf))"
  have d: "get_digest h bf key i = Inr ?d" using Cons.prems by (simp add: get_digest_def)
  have s: "setitem (bit_array bf) ?d True = Inr ((bit_array bf)[nat ?d := True])"
    using digest_range[OF d] by (simp add: setitem_ok)
  have "bit_array (bf\<lparr>bit_array := (bit_array bf)[nat ?d := True]\<rparr>) \<noteq> []"
    using Cons.prems by simp
  from Cons.IH[OF this] show ?case using d s by simp
qed

lemma add_loop_sets:
  "add_loop h key seeds bf = Inr bf' \<Longrightarrow> check_loop h key seeds bf' = Inr True"
proof (induction seeds arbitrary: bf)
  case Nil
  then show ?case by simp
next
  case (Cons i seeds)
  from Cons.prems obtain d ba where
    d: "get_digest h bf key i = Inr d" and ba: "setitem (bit_array bf) d True = Inr ba"
    and rest: "add_loop h key seeds (bf\<lparr>bit_array := ba\<rparr>) = Inr bf'"
    by (auto split: sum.splits)
  have rng: "0 \<le> d" "d < int (length (bit_array bf))" using digest_range[OF d] by auto
  from rng ba have ba_eq: "ba = (bit_array bf)[nat d := True]" by (simp add: setitem_ok)
  from add_loop_mono[OF rest] have le: "bits_le ba (bit_array bf')" by simp
  then have len: "length (bit_array bf') = length (bit_array bf)"
    using ba_eq by (simp add: bits_le_def)
  have "ba ! nat d" using rng ba_eq by simp
  with le rng ba_eq have bit: "bit_array bf' ! nat d" by (auto simp: bits_le_def)
  have d': "get_digest h bf' key i = Inr d"
    using d len by (auto simp: get_digest_def split: if_splits)
  have g: "getitem (bit_array bf') d = Inr True"
    using rng len bit by (simp add: getitem_ok)
  from Cons.IH[OF rest] d' g show ?case by simp
qed

lemma check_loop_mono:
  "check_loop h key seeds bf = Inr True \<Longrightarrow> bits_le (bit_array bf) (bit_array bf') \<Longrightarrow>
   check_loop h key seeds bf' = Inr True"
proof (induction seeds)
  case Nil
  then show ?case by simp
next
  case (Cons i seeds)
  from Cons.prems(1) obtain d where
    d: "get_digest h bf key i = Inr d" and g: "getitem (bit_array bf) d = Inr True"
    and rest: "check_loop h key seeds bf = Inr True"
    by (auto split: sum.splits if_splits)
  have rng: "0 \<le> d" "d < int (length (bit_array bf))" using digest_range[OF d] by auto
  have len: "length (bit_array bf') = length (bit_array bf)"
    using Cons.prems(2) by (simp add: bits_le_def)
  have d': "get_digest h bf' key i = Inr d"
    using d len by (auto simp: get_digest_def split: if_splits)
  from g rng have "bit_array bf ! nat d" by (simp add: getitem_ok)
  with Cons.prems(2) rng have "bit_array bf' ! nat d" by (auto simp: bits_le_def)
  then have g': "getitem (bit_array bf') d = Inr True" using rng len by (simp add: getitem_ok)
  from Cons.IH[OF rest Cons.prems(2)] d' g' show ?case by simp
qed

lemma add_mono:
  "BloomFilter_add h bf key = Inr bf' \<Longrightarrow> hash_count bf' = hash_count bf \<and> bits_le (bit_array bf) (bit_array bf')"
  unfolding BloomFilter_add_def by (rule add_loop_mono)

lemma add_all_mono:
  "add_all h bf keys = Inr bf' \<Longrightarrow> hash_count bf' = hash_count bf \<and> bits_le (bit_array bf) (bit_array bf')"
proof (induction keys arbitrary: bf)
  case Nil
  then show ?case by (simp add: bits_le_refl)
next
  case (Cons k keys)
  from Cons.prems obtain b1 where a: "BloomFilter_add h bf k = Inr b1" and r: "add_all h b1 keys = Inr bf'"
    by (auto split: sum.splits)
  from add_mono[OF a] Cons.IH[OF r] show ?case by (auto intro: bits_le_trans)
qed

lemma add_then_check: "BloomFilter_add h bf key = Inr bf' \<Longrightarrow> BloomFilter_check h bf' key = Inr True"
proof -
  assume a: "BloomFilter_add h bf key = Inr bf'"
  then have "hash_count bf' = hash_count bf" by (simp add: add_mono)
  with a show ?thesis unfolding BloomFilter_add_def BloomFilter_check_def by (simp add: add_loop_sets)
qed

lemma check_mono:
  "BloomFilter_check h bf key = Inr True \<Longrightarrow> hash_count bf' = hash_count bf \<Longrightarrow>
   bits_le (bit_array bf) (bit_array bf') \<Longrightarrow> BloomFilter_check h bf' key = Inr True"
  unfolding BloomFilter_check_def by (simp add: check_loop_mono)

lemma add_all_no_false_negative:
  "add_all h bf keys = Inr bf' \<Longrightarrow> p \<in> set keys \<Longrightarrow> BloomFilter_check h bf' p = Inr True"
proof (induction keys arbitrary: bf)
  case Nil
  then show ?case by simp
next
  case (Cons k keys)
  from Cons.prems(1) obtain b1 where a: "BloomFilter_add h bf k = Inr b1" and r: "add_all h b1 keys = Inr bf'"
    by (auto split: sum.splits)
  show ?case
  proof (cases "p \<in> set keys")
    case True
    then show ?thesis using Cons.IH[OF r] by simp
  next
    case False
    with Cons.prems(2) have "p = k" by simp
    with a have "BloomFilter_check h b1 p = Inr True" by (simp add: add_then_check)
    with add_all_mono[OF r] show ?thesis by (auto intro: check_mono)
  qed
qed

lemma add_all_total: "bit_array bf \<noteq> [] \<Longrightarrow> \<exists>bf'. add_all h bf keys = Inr bf'"
proof (induction keys arbitrary: bf)
  case Nil
  then show ?case by simp
next
  case (Cons k keys)
  from add_loop_total[OF Cons.prems] obtain b1 where a: "BloomFilter_add h bf k = Inr b1"
    unfolding BloomFilter_add_def by blast
  from add_mono[OF a] Cons.prems have "bit_array b1 \<noteq> []" by (auto simp: bits_le_def)
  from Cons.IH[OF this] a show ?case by simp
qed

text \<open>
  Claim C7. On a filter with a non-empty bit array every sequence of \<open>BloomFilter_add\<close> calls
  returns; whenever such a sequence returns and contains \<open>BloomFilter_add(p)\<close>, \<open>BloomFilter_check(p)\<close> is
  true afterwards; and a single \<open>BloomFilter_add\<close> only sets bits, it never clears one. The hash
  function is arbitrary, so this holds for every prefix \<open>p\<close>, of four bytes or not.
\<close>

theorem bloom_no_false_negatives:
  "(bit_array bf \<noteq> [] \<longrightarrow> (\<exists>bf'. add_all mmh3_hash bf keys = Inr bf')) \<and>
   (\<forall>bf'. add_all mmh3_hash bf keys = Inr bf' \<and> p \<in> set keys \<longrightarrow> BloomFilter_check mmh3_hash bf' p = Inr True) \<and>
   (\<forall>bf' key. BloomFilter_add mmh3_hash bf key = Inr bf' \<longrightarrow> bits_le (bit_array bf) (bit_array bf'))"
  using add_all_total add_all_no_false_negative add_mono by blast

theorem bloom_no_false_negatives_witness:
  "\<exists>bf'. add_all (\<lambda>key seed. int (length key) + seed)
           \<lparr>hash_count = 2, bit_array = replicate 8 False\<rparr> [[1, 2, 3, 4], [5, 6, 7, 8]] = Inr bf'
         \<and> BloomFilter_check (\<lambda>key seed. int (length key) + seed) bf' [1, 2, 3, 4] = Inr True"
  using bloom_no_false_negatives
    [of "\<lparr>hash_count = 2, bit_array = replicate 8 False\<rparr>"
        "\<lambda>key seed. int (length key) + seed" "[[1, 2, 3, 4], [5, 6, 7, 8]]" "[1, 2, 3, 4]"]
  by auto

section \<open>Verification: the memtable\<close>


lemma iter_set_red [simp]: "iter_traverse (set_red c t) = iter_traverse t"
  by (cases t) simp_all

lemma is_red_set_red_False [simp]: "\<not> is_red (set_red False t)"
  by (cases t) simp_all

lemma set_red_eq_NIL [simp]: "set_red c t = NIL \<longleftrightarrow> t = NIL"
  by (cases t) simp_all

lemma iter_eq_Nil [simp]: "iter_traverse t = [] \<longleftrightarrow> t = NIL"
  by (cases t) simp_all

lemma iter_plug:
  "iter_traverse (plug f t) = before [f] @ iter_traverse t @ after [f]"
proof (cases f)
  case (Frame s c k u)
  then show ?thesis by (cases s) simp_all
qed

lemma before_Cons: "before (f # path) = before path @ before [f]"
proof (cases f)
  case (Frame s c k u)
  then show ?thesis by (cases s) simp_all
qed

lemma after_Cons: "after (f # path) = after [f] @ after path"
proof (cases f)
  case (Frame s c k u)
  then show ?thesis by (cases s) simp_all
qed

lemma iter_rebuild:
  "iter_traverse (rebuild path t) = before path @ iter_traverse t @ after path"
proof (induction path arbitrary: t)
  case Nil
  then show ?case by simp
next
  case (Cons f path)
  have "iter_traverse (rebuild (f # path) t) =
        before path @ iter_traverse (plug f t) @ after path"
    using Cons.IH by simp
  also have "\<dots> = before path @ (before [f] @ iter_traverse t @ after [f]) @ after path"
    by (simp only: iter_plug)
  also have "\<dots> = before (f # path) @ iter_traverse t @ after (f # path)"
    by (simp add: before_Cons[of f path] after_Cons[of f path])
  finally show ?case .
qed

lemma plug_not_NIL [simp]: "plug f t \<noteq> NIL"
proof (cases f)
  case (Frame s c k u)
  then show ?thesis by (cases s) simp_all
qed

lemma rebuild_not_NIL: "t \<noteq> NIL \<Longrightarrow> rebuild path t \<noteq> NIL"
  by (induction path arbitrary: t) simp_all

lemma right_rotate_iter:
  "right_rotate t = Inr t' \<Longrightarrow> iter_traverse t' = iter_traverse t"
  by (induction t rule: right_rotate.induct) auto

lemma left_rotate_iter:
  "left_rotate t = Inr t' \<Longrightarrow> iter_traverse t' = iter_traverse t"
  by (induction t rule: left_rotate.induct) auto

lemma right_rotate_Inr:
  "l \<noteq> NIL \<Longrightarrow> \<exists>lc ll lk lr. l = Node lc ll lk lr \<and> right_rotate (Node c l k r) = Inr (Node lc ll lk (Node c lr k r))"
  by (cases l) simp_all

lemma left_rotate_Inr:
  "r \<noteq> NIL \<Longrightarrow> \<exists>rc rl rk rr. r = Node rc rl rk rr \<and> left_rotate (Node c l k r) = Inr (Node rc (Node c l k rl) rk rr)"
  by (cases r) simp_all

lemma fix_insert_iter:
  "fix_insert path node = Inr t \<Longrightarrow>
   iter_traverse t = before path @ iter_traverse node @ after path"
proof (induction path node arbitrary: t rule: fix_insert.induct)
  case (1 node)
  then show ?case by auto
next
  case (2 s c k u node)
  then show ?case by (cases s) (auto split: if_splits)
next
  case (3 s c k u gs gc gk uncle path node)
  show ?case
  proof (cases c)
    case False
    with "3.prems" have "t = set_red False (rebuild (Frame s c k u # Frame gs gc gk uncle # path) node)"
      by simp
    then show ?thesis by (simp only: iter_set_red iter_rebuild)
  next
    case True
    note c = True
    show ?thesis
    proof (cases gs)
      case L
      note gs = L
      show ?thesis
      proof (cases "is_red uncle")
        case True
        with c gs "3.prems" have
          "fix_insert path (Node True (set_red False (plug (Frame s c k u) node)) gk (set_red False uncle)) = Inr t"
          by simp
        from "3.IH"(1)[OF _ _ True this] c gs
        show ?thesis by (cases s) simp_all
      next
        case False
        note unc = False
        show ?thesis
        proof (cases s)
          case L
          show ?thesis
          proof (cases node)
            case NIL
            with c gs unc L "3.prems" "3.IH"(2)[of "Node c node k u" "Node c node k (Node gc u gk uncle)" c node k "Node gc u gk uncle" t]
            show ?thesis by simp
          next
            case (Node nc nl nk nr)
            with c gs unc L "3.prems" "3.IH"(2)[of "Node c node k u" "Node c node k (Node gc u gk uncle)" c node k "Node gc u gk uncle" t]
            show ?thesis by simp
          qed
        next
          case R
          show ?thesis
          proof (cases node)
            case NIL
            with c gs unc R "3.prems" show ?thesis by simp
          next
            case (Node nc nl nk nr)
            with c gs unc R "3.prems"
              "3.IH"(2)[of "Node nc (Node c u k nl) nk nr" "Node nc (Node c u k nl) nk (Node gc nr gk uncle)"
                 nc "Node c u k nl" nk "Node gc nr gk uncle" t]
            show ?thesis by simp
          qed
        qed
      qed
    next
      case R
      note gs = R
      show ?thesis
      proof (cases "is_red uncle")
        case True
        with c gs "3.prems" have
          "fix_insert path (Node True (set_red False uncle) gk (set_red False (plug (Frame s c k u) node))) = Inr t"
          by simp
        from "3.IH"(3)[OF _ _ True this] c gs
        show ?thesis by (cases s) simp_all
      next
        case False
        note unc = False
        show ?thesis
        proof (cases s)
          case R
          with c gs unc "3.prems" "3.IH"(4)[of "Node c u k node" "Node c (Node gc uncle gk u) k node" c "Node gc uncle gk u" k node t]
          show ?thesis by simp
        next
          case L
          show ?thesis
          proof (cases node)
            case NIL
            with c gs unc L "3.prems" show ?thesis by simp
          next
            case (Node nc nl nk nr)
            with c gs unc L "3.prems"
              "3.IH"(4)[of "Node nc nl nk (Node c nr k u)" "Node nc (Node gc uncle gk nl) nk (Node c nr k u)"
                 nc "Node gc uncle gk nl" nk "Node c nr k u" t]
            show ?thesis by simp
          qed
        qed
      qed
    qed
  qed
qed

lemma root_black_tl: "root_black (f # g # path) \<Longrightarrow> root_black path"
  by (induction path arbitrary: f g rule: root_black.induct) simp_all

lemma root_black_replace: "root_black (Frame gs gc gk u # path) \<Longrightarrow> root_black (Frame s' gc k' u' # path)"
  by (cases path) simp_all

lemma fix_insert_total:
  "root_black path \<Longrightarrow> node \<noteq> NIL \<Longrightarrow>
   \<exists>t. fix_insert path node = Inr t \<and> \<not> is_red t \<and> t \<noteq> NIL"
proof (induction path node rule: fix_insert.induct)
  case (1 node)
  then show ?case by simp
next
  case (2 s c k u node)
  then show ?case by simp
next
  case (3 s c k u gs gc gk uncle path node)
  have rb: "root_black path" using "3.prems"(1) by (rule root_black_tl)
  have rb': "\<And>s' k' u'. root_black (Frame s' gc k' u' # path)"
    using "3.prems"(1) root_black_replace by simp
  obtain nc nl nk nr where node: "node = Node nc nl nk nr"
    using "3.prems"(2) by (cases node) auto
  show ?case
  proof (cases c)
    case False
    then show ?thesis by (simp add: rebuild_not_NIL)
  next
    case True
    note c = True
    show ?thesis
    proof (cases gs)
      case L
      note gs = L
      show ?thesis
      proof (cases "is_red uncle")
        case True
        from "3.IH"(1)[OF _ _ True rb] c gs True show ?thesis by simp
      next
        case False
        note unc = False
        show ?thesis
        proof (cases s)
          case L
          with c gs unc node
            "3.IH"(2)[of "Node c node k u" "Node c node k (Node gc u gk uncle)" c node k "Node gc u gk uncle", OF _ _ _ _ _ _ rb']
          show ?thesis by simp
        next
          case R
          with c gs unc node
            "3.IH"(2)[of "Node nc (Node c u k nl) nk nr" "Node nc (Node c u k nl) nk (Node gc nr gk uncle)"
                 nc "Node c u k nl" nk "Node gc nr gk uncle", OF _ _ _ _ _ _ rb']
          show ?thesis by simp
        qed
      qed
    next
      case R
      note gs = R
      show ?thesis
      proof (cases "is_red uncle")
        case True
        from "3.IH"(3)[OF _ _ True rb] c gs True show ?thesis by simp
      next
        case False
        note unc = False
        show ?thesis
        proof (cases s)
          case R
          with c gs unc node
            "3.IH"(4)[of "Node c u k node" "Node c (Node gc uncle gk u) k node" c "Node gc uncle gk u" k node, OF _ _ _ _ _ _ rb']
          show ?thesis by simp
        next
          case L
          with c gs unc node
            "3.IH"(4)[of "Node nc nl nk (Node c nr k u)" "Node nc (Node gc uncle gk nl) nk (Node c nr k u)"
                 nc "Node gc uncle gk nl" nk "Node c nr k u", OF _ _ _ _ _ _ rb']
          show ?thesis by simp
        qed
      qed
    qed
  qed
qed

lemma insert_search_side:
  "insert_search key t path = Some path' \<Longrightarrow> list_all (side_ok key) path \<Longrightarrow>
   list_all (side_ok key) path'"
  by (induction key t path rule: insert_search.induct) (auto split: if_splits)

lemma insert_search_root_black:
  "insert_search key t path = Some path' \<Longrightarrow> root_black path \<Longrightarrow>
   (path = [] \<Longrightarrow> \<not> is_red t) \<Longrightarrow> root_black path'"
proof (induction key t path rule: insert_search.induct)
  case (1 key path)
  then show ?case by simp
next
  case (2 key c l k r path)
  have rb: "\<And>s u. root_black (Frame s c k u # path)"
    using "2.prems"(2,3) by (cases path) simp_all
  from "2.prems"(1) have ne: "key \<noteq> k" by (auto split: if_splits)
  show ?case
  proof (cases "key < k")
    case True
    with ne "2.prems"(1) have "insert_search key l (Frame L c k r # path) = Some path'" by simp
    from "2.IH"(1)[OF ne True this rb] show ?thesis by simp
  next
    case False
    with ne "2.prems"(1) have "insert_search key r (Frame R c k l # path) = Some path'" by simp
    from "2.IH"(2)[OF ne False this rb] show ?thesis by simp
  qed
qed

lemma insert_search_found:
  "insert_search key t path = None \<Longrightarrow> key \<in> set (iter_traverse t)"
  by (induction key t path rule: insert_search.induct) (auto split: if_splits)

lemma sorted_wrt_less_appendD:
  fixes k :: bytes
  assumes "sorted_wrt (<) (xs @ [k] @ ys)"
  shows "sorted_wrt (<) xs" "sorted_wrt (<) ys" "\<forall>x\<in>set xs. x < k" "\<forall>y\<in>set ys. k < y"
  using assms by (auto simp: sorted_wrt_append)

lemma insert_search_split:
  "insert_search key t path = Some path' \<Longrightarrow> sorted_wrt (<) (iter_traverse t) \<Longrightarrow>
   \<exists>bs as. iter_traverse t = bs @ as \<and> before path' = before path @ bs \<and>
           after path' = as @ after path \<and> (\<forall>x\<in>set bs. x < key) \<and> (\<forall>x\<in>set as. key < x)"
proof (induction key t path rule: insert_search.induct)
  case (1 key path)
  then show ?case by simp
next
  case (2 key c l k r path)
  from "2.prems"(1) have ne: "key \<noteq> k" by (auto split: if_splits)
  from "2.prems"(2) have srt: "sorted_wrt (<) (iter_traverse l @ [k] @ iter_traverse r)" by simp
  note parts = sorted_wrt_less_appendD[OF srt]
  show ?case
  proof (cases "key < k")
    case True
    with ne "2.prems"(1) have "insert_search key l (Frame L c k r # path) = Some path'" by simp
    from "2.IH"(1)[OF ne True this parts(1)] obtain bs as where
      h: "iter_traverse l = bs @ as" "before path' = before path @ bs"
         "after path' = as @ [k] @ iter_traverse r @ after path"
         "\<forall>x\<in>set bs. x < key" "\<forall>x\<in>set as. key < x"
      by auto
    have "\<forall>x\<in>set (as @ [k] @ iter_traverse r). key < x"
      using h(5) True parts(4) by auto
    with h show ?thesis
      by (intro exI[of _ bs] exI[of _ "as @ [k] @ iter_traverse r"]) simp
  next
    case False
    with ne have gt: "k < key" by simp
    from False ne "2.prems"(1) have "insert_search key r (Frame R c k l # path) = Some path'" by simp
    from "2.IH"(2)[OF ne False this parts(2)] obtain bs as where
      h: "iter_traverse r = bs @ as" "before path' = before path @ iter_traverse l @ [k] @ bs"
         "after path' = as @ after path"
         "\<forall>x\<in>set bs. x < key" "\<forall>x\<in>set as. key < x"
      by auto
    have "\<forall>x\<in>set (iter_traverse l @ [k] @ bs). x < key"
      using h(4) gt parts(3) by auto
    with h show ?thesis
      by (intro exI[of _ "iter_traverse l @ [k] @ bs"] exI[of _ as]) simp
  qed
qed

lemma get_loop_sorted:
  "sorted_wrt (<) (iter_traverse t) \<Longrightarrow>
   get_loop key t = (if key \<in> set (iter_traverse t) then Some key else None)"
proof (induction t)
  case NIL
  then show ?case by simp
next
  case (Node c l k r)
  from Node.prems have srt: "sorted_wrt (<) (iter_traverse l @ [k] @ iter_traverse r)" by simp
  note parts = sorted_wrt_less_appendD[OF srt]
  show ?case
  proof (cases "key = k")
    case True
    then show ?thesis by simp
  next
    case ne: False
    show ?thesis
    proof (cases "key < k")
      case True
      then have "key \<notin> set (iter_traverse r)" using parts(4) by auto
      with True ne Node.IH(1)[OF parts(1)] show ?thesis by simp
    next
      case False
      with ne have "k < key" by simp
      then have "key \<notin> set (iter_traverse l)" using parts(3) by auto
      with False ne Node.IH(2)[OF parts(2)] show ?thesis by simp
    qed
  qed
qed

lemma insert_search_length:
  "insert_search key t path = Some path' \<Longrightarrow> length path \<le> length path'"
proof (induction key t path rule: insert_search.induct)
  case (1 key path)
  then show ?case by simp
next
  case (2 key c l k r path)
  then show ?case by (fastforce split: if_splits)
qed

lemma insert_search_Node_nonempty:
  "insert_search key (Node c l k r) path = Some path' \<Longrightarrow> path' \<noteq> []"
proof -
  assume a: "insert_search key (Node c l k r) path = Some path'"
  then have "\<exists>f. insert_search key l (f # path) = Some path' \<or> insert_search key r (f # path) = Some path'"
    by (auto split: if_splits)
  then obtain f where "length (f # path) \<le> length path'"
    using insert_search_length by blast
  then show ?thesis by auto
qed

lemma sorted_wrt_insert_mid:
  fixes key :: bytes
  assumes "sorted_wrt (<) (bs @ as)" "\<forall>x\<in>set bs. x < key" "\<forall>x\<in>set as. key < x"
  shows "sorted_wrt (<) (bs @ [key] @ as)"
  using assms by (auto simp: sorted_wrt_append)

lemma insert_inv:
  assumes inv: "mt_inv m"
  shows "\<exists>b m'. MemTable_insert m key = Inr (b, m') \<and> mt_inv m' \<and> (b \<longleftrightarrow> key \<notin> set (MemTable_iter m)) \<and>
           set (MemTable_iter m') = Set.insert key (set (MemTable_iter m))"
proof (cases "elements m = 0")
  case True
  with inv have "MemTable_iter m = []" by (simp add: mt_inv_def)
  with True show ?thesis by (auto simp: MemTable_insert_def mt_inv_def MemTable_iter_def)
next
  case False
  with inv have "root m \<noteq> NIL" by (auto simp: mt_inv_def MemTable_iter_def)
  then obtain rc rl rk rr where rt: "root m = Node rc rl rk rr" by (cases "root m") auto
  from inv have srt: "sorted_wrt (<) (iter_traverse (root m))" and blk: "\<not> is_red (root m)"
    and el: "elements m = int (length (iter_traverse (root m)))"
    by (simp_all add: mt_inv_def MemTable_iter_def)
  show ?thesis
  proof (cases "insert_search key (root m) []")
    case None
    then have "key \<in> set (MemTable_iter m)" by (simp add: insert_search_found MemTable_iter_def)
    with None False inv show ?thesis by (auto simp: MemTable_insert_def)
  next
    case (Some path')
    from insert_search_split[OF Some srt] obtain bs as where
      h: "iter_traverse (root m) = bs @ as" "before path' = bs" "after path' = as"
         "\<forall>x\<in>set bs. x < key" "\<forall>x\<in>set as. key < x"
      by auto
    from h(1,4,5) have notin: "key \<notin> set (MemTable_iter m)" by (auto simp: MemTable_iter_def)
    from Some rt have "path' \<noteq> []" using insert_search_Node_nonempty by metis
    then obtain f p where p': "path' = f # p" by (cases path') auto
    obtain s c k u where f: "f = Frame s c k u" by (cases f) auto
    from insert_search_side[OF Some] p' f have side: "(if key < k then L else R) = s" by simp
    have rb: "root_black path'"
      using insert_search_root_black[OF Some] blk by simp
    from fix_insert_total[OF rb, of "Node True NIL key NIL"] obtain t' where
      t': "fix_insert path' (Node True NIL key NIL) = Inr t'" "\<not> is_red t'"
      by auto
    from fix_insert_iter[OF t'(1)] h have it: "iter_traverse t' = bs @ [key] @ as" by simp
    have ins: "MemTable_insert m key = Inr (True, \<lparr>root = t', elements = elements m + 1\<rparr>)"
      using False Some p' f side t'(1) by (simp add: MemTable_insert_def)
    have s': "sorted_wrt (<) (bs @ [key] @ as)"
      using srt h by (intro sorted_wrt_insert_mid) simp_all
    have "mt_inv \<lparr>root = t', elements = elements m + 1\<rparr>"
      using it s' t'(2) el h(1) by (simp add: mt_inv_def MemTable_iter_def)
    moreover have "set (MemTable_iter \<lparr>root = t', elements = elements m + 1\<rparr>) = Set.insert key (set (MemTable_iter m))"
      using it h(1) by (auto simp: MemTable_iter_def)
    ultimately show ?thesis using ins notin by auto
  qed
qed

lemma mt_inv_init: "mt_inv MemTable_init"
  by (simp add: mt_inv_def MemTable_init_def MemTable_iter_def)

lemma insert_all_inv:
  "mt_inv m \<Longrightarrow>
   \<exists>flags m'. insert_all m keys = Inr (flags, m') \<and> mt_inv m' \<and>
      set (MemTable_iter m') = set (MemTable_iter m) \<union> set keys \<and> length flags = length keys \<and>
      (\<forall>i<length keys. flags ! i = (keys ! i \<notin> set (MemTable_iter m) \<union> set (take i keys)))"
proof (induction keys arbitrary: m)
  case Nil
  then show ?case by simp
next
  case (Cons key keys)
  from insert_inv[OF Cons.prems, of key] obtain b m1 where
    a: "MemTable_insert m key = Inr (b, m1)" "mt_inv m1" "b \<longleftrightarrow> key \<notin> set (MemTable_iter m)"
       "set (MemTable_iter m1) = Set.insert key (set (MemTable_iter m))"
    by blast
  from Cons.IH[OF a(2)] obtain flags m' where
    r: "insert_all m1 keys = Inr (flags, m')" "mt_inv m'"
       "set (MemTable_iter m') = set (MemTable_iter m1) \<union> set keys" "length flags = length keys"
       "\<forall>i<length keys. flags ! i = (keys ! i \<notin> set (MemTable_iter m1) \<union> set (take i keys))"
    by blast
  have run: "insert_all m (key # keys) = Inr (b # flags, m')" using a(1) r(1) by simp
  have flg: "\<forall>i<length (key # keys). (b # flags) ! i =
               ((key # keys) ! i \<notin> set (MemTable_iter m) \<union> set (take i (key # keys)))"
  proof (intro allI impI)
    fix i assume i: "i < length (key # keys)"
    show "(b # flags) ! i = ((key # keys) ! i \<notin> set (MemTable_iter m) \<union> set (take i (key # keys)))"
    proof (cases i)
      case 0
      then show ?thesis using a(3) by simp
    next
      case (Suc j)
      with i have "j < length keys" by simp
      with r(5) have "flags ! j = (keys ! j \<notin> set (MemTable_iter m1) \<union> set (take j keys))" by simp
      with Suc a(4) show ?thesis by auto
    qed
  qed
  show ?case using run r(2,3,4) a(4) flg by auto
qed

lemma contains_iff: "sorted_wrt (<) (MemTable_iter m) \<Longrightarrow> MemTable_contains m key \<longleftrightarrow> key \<in> set (MemTable_iter m)"
  by (simp add: MemTable_contains_def MemTable_get_def MemTable_iter_def get_loop_sorted)

lemma sorted_wrt_less_distinct:
  fixes xs :: "bytes list"
  shows "sorted_wrt (<) xs \<Longrightarrow> distinct xs"
  by (induction xs) auto

text \<open>
  Claim C4. Every sequence of \<open>insert\<close> calls on a new memtable returns. The flag of
  a call is true exactly when its key was not among the keys inserted before, and after
  the call the memtable contains the key. Iterating the memtable after the sequence
  yields exactly the inserted keys, each once, in strictly increasing order; the order on
  \<open>bytes\<close> is the lexicographic one.
\<close>

theorem memtable_insert_iter:
  "\<exists>flags m. insert_all MemTable_init keys = Inr (flags, m)
      \<and> length flags = length keys
      \<and> (\<forall>i<length keys. flags ! i = (keys ! i \<notin> set (take i keys)))
      \<and> (\<forall>i<length keys. \<exists>fs mi. insert_all MemTable_init (take (Suc i) keys) = Inr (fs, mi)
                                  \<and> MemTable_contains mi (keys ! i))
      \<and> set (MemTable_iter m) = set keys \<and> distinct (MemTable_iter m) \<and> sorted_wrt (<) (MemTable_iter m)"
proof -
  from insert_all_inv[OF mt_inv_init, of keys] obtain flags m where
    r: "insert_all MemTable_init keys = Inr (flags, m)" "mt_inv m"
       "set (MemTable_iter m) = set (MemTable_iter MemTable_init) \<union> set keys" "length flags = length keys"
       "\<forall>i<length keys. flags ! i = (keys ! i \<notin> set (MemTable_iter MemTable_init) \<union> set (take i keys))"
    by blast
  have e: "MemTable_iter MemTable_init = []" by (simp add: MemTable_init_def MemTable_iter_def)
  have after_call: "\<forall>i<length keys. \<exists>fs mi.
      insert_all MemTable_init (take (Suc i) keys) = Inr (fs, mi) \<and> MemTable_contains mi (keys ! i)"
  proof (intro allI impI)
    fix i assume i: "i < length keys"
    from insert_all_inv[OF mt_inv_init, of "take (Suc i) keys"] obtain fs mi where
      p: "insert_all MemTable_init (take (Suc i) keys) = Inr (fs, mi)" "mt_inv mi"
         "set (MemTable_iter mi) = set (MemTable_iter MemTable_init) \<union> set (take (Suc i) keys)"
      by blast
    from i have "keys ! i \<in> set (take (Suc i) keys)"
      by (simp add: take_Suc_conv_app_nth)
    with p(2,3) have "MemTable_contains mi (keys ! i)"
      by (simp add: contains_iff mt_inv_def)
    with p(1) show "\<exists>fs mi. insert_all MemTable_init (take (Suc i) keys) = Inr (fs, mi)
                       \<and> MemTable_contains mi (keys ! i)"
      by blast
  qed
  from r(2) have srt: "sorted_wrt (<) (MemTable_iter m)" by (simp add: mt_inv_def)
  show ?thesis
    using r(1,3,4,5) e after_call srt sorted_wrt_less_distinct[OF srt] by auto
qed

theorem memtable_insert_iter_witness:
  "\<exists>flags m. insert_all MemTable_init [[2], [1], [2], [3]] = Inr (flags, m)
      \<and> flags = [True, True, False, True]
      \<and> MemTable_contains m [3]
      \<and> MemTable_iter m = [[1], [2], [3]]"
proof -
  let ?keys = "[[2], [1], [2], [3 :: byte]]"
  from memtable_insert_iter[of ?keys] obtain flags m where
    h: "insert_all MemTable_init ?keys = Inr (flags, m)" "length flags = length ?keys"
       "\<forall>i<length ?keys. flags ! i = (?keys ! i \<notin> set (take i ?keys))"
       "\<forall>i<length ?keys. \<exists>fs mi. insert_all MemTable_init (take (Suc i) ?keys) = Inr (fs, mi)
            \<and> MemTable_contains mi (?keys ! i)"
    by blast
  have run: "insert_all MemTable_init ?keys =
     Inr ([True, True, False, True],
          \<lparr>root = Node False (Node True NIL [1] NIL) [2] (Node True NIL [3] NIL), elements = 3\<rparr>)"
    by (simp add: MemTable_insert_def MemTable_init_def)
  from h(1) run have m: "m = \<lparr>root = Node False (Node True NIL [1] NIL) [2] (Node True NIL [3] NIL), elements = 3\<rparr>"
    and f: "flags = [True, True, False, True]"
    by simp_all
  have c: "MemTable_contains m [3]"
    by (simp add: m MemTable_contains_def MemTable_get_def)
  have i: "MemTable_iter m = [[1], [2], [3]]"
    by (simp add: m MemTable_iter_def)
  from h(1) f c i show ?thesis by blast
qed

lemma range_lookup_traverse_sorted:
  "sorted_wrt (<) (iter_traverse t) \<Longrightarrow>
   range_lookup_traverse t lo hi results =
     results @ concat (filter (\<lambda>k. lo \<le> k \<and> k \<le> hi) (iter_traverse t))"
proof (induction t arbitrary: results)
  case NIL
  then show ?case by simp
next
  case (Node c l k r)
  from Node.prems have srt: "sorted_wrt (<) (iter_traverse l @ [k] @ iter_traverse r)" by simp
  note parts = sorted_wrt_less_appendD[OF srt]
  note IHl = Node.IH(1)[OF parts(1)]
  note IHr = Node.IH(2)[OF parts(2)]
  have left_none: "filter (\<lambda>x. lo \<le> x \<and> x \<le> hi) (iter_traverse l) = []" if "\<not> lo < k"
  proof -
    have "\<forall>x\<in>set (iter_traverse l). \<not> lo \<le> x" using parts(3) that by auto
    then show ?thesis by (simp add: filter_empty_conv)
  qed
  have right_none: "filter (\<lambda>x. lo \<le> x \<and> x \<le> hi) (iter_traverse r) = []" if "\<not> k < hi"
  proof -
    have "\<forall>x\<in>set (iter_traverse r). \<not> x \<le> hi" using parts(4) that by auto
    then show ?thesis by (simp add: filter_empty_conv)
  qed
  let ?P = "\<lambda>x. lo \<le> x \<and> x \<le> hi"
  let ?r1 = "if lo < k then range_lookup_traverse l lo hi results else results"
  let ?r2 = "if lo \<le> k \<and> k \<le> hi then ?r1 @ k else ?r1"
  have r1: "?r1 = results @ concat (filter ?P (iter_traverse l))"
  proof (cases "lo < k")
    case True
    then show ?thesis by (simp only: IHl if_True)
  next
    case False
    then show ?thesis by (simp only: left_none[OF False] if_False) simp
  qed
  have r2: "?r2 = results @ concat (filter ?P (iter_traverse l @ [k]))"
    by (simp only: r1) simp
  have r3: "(if k < hi then range_lookup_traverse r lo hi ?r2 else ?r2) =
            results @ concat (filter ?P (iter_traverse l @ [k] @ iter_traverse r))"
  proof (cases "k < hi")
    case True
    then show ?thesis by (simp only: IHr if_True r2) simp
  next
    case False
    then show ?thesis by (simp only: if_False r2 right_none[OF False] filter_append append_Nil2 append_assoc[symmetric])
  qed
  have "range_lookup_traverse (Node c l k r) lo hi results =
        (if k < hi then range_lookup_traverse r lo hi ?r2 else ?r2)"
    by (simp only: range_lookup_traverse.simps Let_def)
  then show ?case by (simp only: r3 iter_traverse.simps)
qed

text \<open>
  Claim C5. On a memtable whose iteration is strictly increasing, which every memtable
  built by \<open>insert\<close> is, \<open>range_lookup(lo, hi)\<close> returns the concatenation of exactly
  the keys \<open>k\<close> with \<open>lo \<le> k \<le> hi\<close>, in iteration order, and nothing when
  \<open>hi < lo\<close>.
\<close>

theorem memtable_range_lookup:
  "(sorted_wrt (<) (MemTable_iter m) \<longrightarrow>
      MemTable_range_lookup m lo hi = concat (filter (\<lambda>k. lo \<le> k \<and> k \<le> hi) (MemTable_iter m)))
   \<and> (sorted_wrt (<) (MemTable_iter m) \<and> hi < lo \<longrightarrow> MemTable_range_lookup m lo hi = [])"
proof -
  have "filter (\<lambda>k. lo \<le> k \<and> k \<le> hi) (MemTable_iter m) = []" if "hi < lo"
    using that by (auto simp: filter_empty_conv)
  then show ?thesis
    by (auto simp: MemTable_range_lookup_def MemTable_iter_def range_lookup_traverse_sorted)
qed

theorem memtable_range_lookup_witness:
  "\<exists>flags m. insert_all MemTable_init [[2], [1], [3]] = Inr (flags, m)
      \<and> sorted_wrt (<) (MemTable_iter m)
      \<and> MemTable_range_lookup m [2] [3] = [2, 3]
      \<and> MemTable_range_lookup m [3] [2] = []"
proof -
  let ?m = "\<lparr>root = Node False (Node True NIL [1] NIL) [2] (Node True NIL [3] NIL), elements = 3\<rparr>"
  have run: "insert_all MemTable_init [[2], [1], [3]] = Inr ([True, True, True], ?m)"
    by (simp add: MemTable_insert_def MemTable_init_def)
  have it: "MemTable_iter ?m = [[1], [2], [3]]" by (simp add: MemTable_iter_def)
  then have srt: "sorted_wrt (<) (MemTable_iter ?m)" by simp
  from memtable_range_lookup[of ?m "[2]" "[3]"] srt it
  have a: "MemTable_range_lookup ?m [2] [3] = [2, 3]" by simp
  have lt: "[2 :: byte] < [3]" by simp
  from memtable_range_lookup[of ?m "[3]" "[2]"]
  have "sorted_wrt (<) (MemTable_iter ?m) \<and> [2 :: byte] < [3] \<longrightarrow> MemTable_range_lookup ?m [3] [2] = []"
    by (rule conjunct2)
  with srt lt have b: "MemTable_range_lookup ?m [3] [2] = []" by blast
  from run srt a b show ?thesis by simp
qed

subsection \<open>remove\<close>

lemma left_rotate_error: "left_rotate t = Inl e \<Longrightarrow> e = AttributeError"
  by (induction t rule: left_rotate.induct) auto

lemma right_rotate_error: "right_rotate t = Inl e \<Longrightarrow> e = AttributeError"
  by (induction t rule: right_rotate.induct) auto

lemma fix_double_black_no_NameError:
  assumes "fix_double_black path node = Some y"
  shows "y \<noteq> Inl NameError"
proof (rule fix_double_black.raw_induct[where P = "\<lambda>path node y. y \<noteq> Inl NameError", OF _ assms], goal_cases)
  case (1 f path node y)
  show ?case
  proof (cases path)
    case Nil
    with 1(2) show ?thesis by auto
  next
    case (Cons fr rest)
    obtain s pc pk sibling where fr: "fr = Frame s pc pk sibling" by (cases fr) auto
    show ?thesis
    proof (cases sibling)
      case NIL
      with Cons fr 1(2) show ?thesis by auto
    next
      case (Node sc sl sk sr)
      with Cons fr 1(2) 1(1) show ?thesis
        by (auto split: if_splits sum.splits tree.splits simp: Let_def
                 dest: left_rotate_error right_rotate_error)
    qed
  qed
qed

lemma delete_node_error: "delete_node path = Inl e \<Longrightarrow> e = AttributeError"
  by (cases path) auto

lemma fix_remove_leafish_no_NameError:
  "fix_remove path (Node c NIL k r) \<noteq> Some (Inl NameError)"
proof (cases r)
  case NIL
  show ?thesis
  proof (cases c)
    case True
    with NIL show ?thesis by (auto split: sum.splits dest: delete_node_error)
  next
    case False
    with NIL show ?thesis using fix_double_black_no_NameError by auto
  qed
next
  case (Node rc rl rk rr)
  then show ?thesis by simp
qed

lemma fix_remove_NameError:
  "fix_remove path (Node c l k r) = Some (Inl NameError) \<longleftrightarrow>
     l \<noteq> NIL \<and> (\<exists>rc rl rk rr. r = Node rc rl rk rr \<and> rl \<noteq> NIL)"
proof (cases l)
  case NIL
  then show ?thesis using fix_remove_leafish_no_NameError by simp
next
  case l: (Node lc ll lk lr)
  show ?thesis
  proof (cases r)
    case NIL
    with l show ?thesis by simp
  next
    case r: (Node rc rl rk rr)
    show ?thesis
    proof (cases rl)
      case NIL
      with l r show ?thesis using fix_remove_leafish_no_NameError by simp
    next
      case (Node a b c d)
      with l r show ?thesis by simp
    qed
  qed
qed

text \<open>
  Claim C10, amended. \<open>remove(key)\<close> raises \<open>NameError\<close> exactly when the node holding
  the key has two children other than the sentinel and its right child has a left child
  other than the sentinel: only then does the loop body of \<open>node_successor\<close> run. When
  the right child has no left child, \<open>node_successor\<close> returns it and no \<open>NameError\<close>
  is raised.
\<close>

theorem remove_NameError_iff:
  "MemTable_remove m key = Some (Inl NameError) \<longleftrightarrow>
     (\<exists>path c l k rc rl rk rr.
        remove_search key (root m) [] = (path, Node c l k (Node rc rl rk rr))
        \<and> l \<noteq> NIL \<and> rl \<noteq> NIL)"
proof -
  obtain path node where s: "remove_search key (root m) [] = (path, node)"
    by (cases "remove_search key (root m) []") auto
  show ?thesis
  proof (cases node)
    case NIL
    with s show ?thesis by (simp add: MemTable_remove_def)
  next
    case (Node c l k r)
    have "MemTable_remove m key =
          (case fix_remove path (Node c l k r) of
             None \<Rightarrow> None
           | Some (Inl e) \<Rightarrow> Some (Inl e)
           | Some (Inr t) \<Rightarrow> Some (Inr (True, \<lparr>root = t, elements = elements m - 1\<rparr>)))"
      using s Node by (simp only: MemTable_remove_def prod.case tree.case)
    then have "MemTable_remove m key = Some (Inl NameError) \<longleftrightarrow>
          fix_remove path (Node c l k r) = Some (Inl NameError)"
      by (cases "fix_remove path (Node c l k r)") (auto split: sum.splits)
    also have "\<dots> \<longleftrightarrow> l \<noteq> NIL \<and> (\<exists>rc rl rk rr. r = Node rc rl rk rr \<and> rl \<noteq> NIL)"
      by (rule fix_remove_NameError)
    also have "\<dots> \<longleftrightarrow> (\<exists>path' c' l' k' rc rl rk rr.
        (path, Node c l k r) = (path', Node c' l' k' (Node rc rl rk rr))
        \<and> l' \<noteq> NIL \<and> rl \<noteq> NIL)"
      by auto
    finally show ?thesis using s Node by simp
  qed
qed

theorem remove_NameError_iff_witness:
  "MemTable_remove
     \<lparr>root = Node False (Node False NIL [1] NIL) [2] (Node False (Node True NIL [3] NIL) [4] NIL),
      elements = 4\<rparr> [2] = Some (Inl NameError)
   \<and> insert_all MemTable_init [[2], [1], [4], [3]] =
       Inr ([True, True, True, True],
            \<lparr>root = Node False (Node False NIL [1] NIL) [2] (Node False (Node True NIL [3] NIL) [4] NIL),
             elements = 4\<rparr>)"
proof -
  let ?t = "Node False (Node False NIL [1] NIL) [2] (Node False (Node True NIL [3] NIL) [4] NIL)"
  let ?m = "\<lparr>root = ?t, elements = 4\<rparr>"
  have run: "insert_all MemTable_init [[2], [1], [4], [3]] = Inr ([True, True, True, True], ?m)"
    by (simp add: MemTable_insert_def MemTable_init_def)
  have s: "remove_search [2] (root ?m) [] =
             ([], Node False (Node False NIL [1] NIL) [2] (Node False (Node True NIL [3] NIL) [4] NIL))"
    by simp
  have "\<exists>path c l k rc rl rk rr.
        remove_search [2] (root ?m) [] = (path, Node c l k (Node rc rl rk rr)) \<and> l \<noteq> NIL \<and> rl \<noteq> NIL"
    unfolding s by blast
  then have "MemTable_remove ?m [2] = Some (Inl NameError)"
    by (simp only: remove_NameError_iff[of ?m "[2]"])
  with run show ?thesis by blast
qed

text \<open>On the tree of the keys 2, 1, 3 the root has two children, and \<open>remove\<close> of its key
  returns true.\<close>

theorem remove_two_children_counterexample:
  "insert_all MemTable_init [[2], [1], [3]] =
     Inr ([True, True, True],
          \<lparr>root = Node False (Node True NIL [1] NIL) [2] (Node True NIL [3] NIL), elements = 3\<rparr>)
   \<and> remove_search [2] (Node False (Node True NIL [1] NIL) [2] (Node True NIL [3] NIL)) [] =
       ([], Node False (Node True NIL [1] NIL) [2] (Node True NIL [3] NIL))
   \<and> MemTable_remove
       \<lparr>root = Node False (Node True NIL [1] NIL) [2] (Node True NIL [3] NIL), elements = 3\<rparr> [2] =
       Some (Inr (True, \<lparr>root = Node False (Node True NIL [1] NIL) [3] NIL, elements = 2\<rparr>))"
  by (simp add: MemTable_insert_def MemTable_init_def MemTable_remove_def)

section \<open>Verification: recovery from the write-ahead log\<close>

lemma insert_each_inv:
  "mt_inv m \<Longrightarrow>
   \<exists>m'. insert_each m keys = Inr m' \<and> mt_inv m' \<and>
        set (MemTable_iter m') = set (MemTable_iter m) \<union> set keys"
proof (induction keys arbitrary: m)
  case Nil
  then show ?case by simp
next
  case (Cons key keys)
  from insert_inv[OF Cons.prems, of key] obtain b m1 where
    a: "MemTable_insert m key = Inr (b, m1)" "mt_inv m1"
       "set (MemTable_iter m1) = Set.insert key (set (MemTable_iter m))"
    by blast
  from Cons.IH[OF a(2)] obtain m' where
    r: "insert_each m1 keys = Inr m'" "mt_inv m'"
       "set (MemTable_iter m') = set (MemTable_iter m1) \<union> set keys"
    by blast
  show ?case using a(1,3) r by auto
qed

lemma mt_inv_len:
  "mt_inv m \<Longrightarrow> MemTable_len m = int (card (set (MemTable_iter m)))"
proof -
  assume inv: "mt_inv m"
  then have "distinct (MemTable_iter m)" by (simp add: mt_inv_def sorted_wrt_less_distinct)
  then have "card (set (MemTable_iter m)) = length (MemTable_iter m)" by (rule distinct_card)
  with inv show ?thesis by (simp add: mt_inv_def MemTable_len_def)
qed

lemma length_py_range_step: "length (py_range_step n step) = (n + step - 1) div step"
  by (simp add: py_range_step_def)

lemma length_wal_records:
  "length (wal_records c mm) = (length mm + HASH_SIZE c - 1) div HASH_SIZE c"
  by (simp add: wal_records_def length_py_range_step)

lemma last_offset_in_range:
  assumes h: "0 < h" and nd: "\<not> h dvd n"
  shows "n - n mod h \<in> set (py_range_step n h)"
proof -
  have "n - n mod h = (n div h) * h" by (simp add: minus_mod_eq_div_mult)
  moreover have "n div h < (n + h - 1) div h"
  proof -
    from nd have "0 < n mod h" by (simp add: dvd_eq_mod_eq_0)
    then have "n + h - 1 \<ge> (n div h) * h + h"
      using div_mult_mod_eq[of n h] by linarith
    then have "(n + h - 1) div h \<ge> ((n div h) * h + h) div h" by (rule div_le_mono)
    with h show ?thesis by simp
  qed
  ultimately show ?thesis by (auto simp: py_range_step_def)
qed

lemma partial_record_in_wal_records:
  assumes h: "0 < HASH_SIZE c" and nd: "\<not> HASH_SIZE c dvd length mm"
  shows "drop (length mm - length mm mod HASH_SIZE c) mm \<in> set (wal_records c mm)"
proof -
  let ?o = "length mm - length mm mod HASH_SIZE c"
  have "slice mm ?o (?o + HASH_SIZE c) = drop ?o mm"
  proof -
    have "length (drop ?o mm) = length mm mod HASH_SIZE c" by simp
    also have "\<dots> < HASH_SIZE c" using h by simp
    finally show ?thesis by (simp add: slice_def)
  qed
  moreover have "?o \<in> set (py_range_step (length mm) (HASH_SIZE c))"
    using last_offset_in_range[OF h nd] .
  ultimately show ?thesis unfolding wal_records_def by force
qed

text \<open>
  Claim C3, amended. For a record size above zero and a log of \<open>L\<close> bytes whose
  records, as the loop slices them, are distinct, recovery returns a memtable with one key
  for each record: \<open>L div HASH_SIZE\<close> keys when the size divides \<open>L\<close>, and one more
  otherwise, because the last slice, the \<open>L mod HASH_SIZE\<close> bytes of the partial record,
  is inserted as a key like the others.
\<close>

theorem wal_recovery_keeps_partial_record:
  assumes "0 < HASH_SIZE c" and "write_ahead fs partition_num = Some mm"
    and "distinct (wal_records c mm)"
  shows "\<exists>memtable fs'. build_memtable_from_WAL c fs partition_num = Inr (memtable, fs')
           \<and> set (MemTable_iter memtable) = set (wal_records c mm)
           \<and> MemTable_len memtable = int ((length mm + HASH_SIZE c - 1) div HASH_SIZE c)
           \<and> (HASH_SIZE c dvd length mm \<longrightarrow>
                 MemTable_len memtable = int (length mm div HASH_SIZE c))
           \<and> (\<not> HASH_SIZE c dvd length mm \<longrightarrow>
                 MemTable_len memtable = int (length mm div HASH_SIZE c) + 1
                 \<and> drop (length mm - length mm mod HASH_SIZE c) mm \<in> set (MemTable_iter memtable))"
proof -
  let ?h = "HASH_SIZE c" and ?n = "length mm"
  from insert_each_inv[OF mt_inv_init, of "wal_records c mm"] obtain m where
    m: "insert_each MemTable_init (wal_records c mm) = Inr m" "mt_inv m"
       "set (MemTable_iter m) = set (wal_records c mm)"
    by (auto simp: MemTable_init_def MemTable_iter_def)
  have card: "card (set (wal_records c mm)) = (?n + ?h - 1) div ?h"
    using assms(3) by (simp add: distinct_card length_wal_records)
  have len: "MemTable_len m = int ((?n + ?h - 1) div ?h)"
    using mt_inv_len[OF m(2)] m(3) card by simp
  have dv: "(?n + ?h - 1) div ?h = ?n div ?h" if "?h dvd ?n"
  proof -
    from that obtain q where q: "?n = ?h * q" by (auto simp: dvd_def)
    have ne: "?h \<noteq> 0" using assms(1) by simp
    have "?h * q + ?h - 1 = ?h * q + (?h - 1)" using assms(1) by simp
    moreover have "(?h * q + (?h - 1)) div ?h = q + (?h - 1) div ?h"
      by (rule div_mult_self4[OF ne])
    moreover have "(?h - 1) div ?h = 0" using assms(1) by simp
    moreover have "?h * q div ?h = q" using ne by simp
    ultimately show ?thesis using q by simp
  qed
  have ndv: "(?n + ?h - 1) div ?h = ?n div ?h + 1" if "\<not> ?h dvd ?n"
  proof -
    define q r where "q = ?n div ?h" and "r = ?n mod ?h"
    from that have pos: "0 < r" by (simp add: r_def dvd_eq_mod_eq_0)
    have lt: "r < ?h" using assms(1) by (simp add: r_def)
    have n: "?n = ?h * q + r" by (simp add: q_def r_def)
    have ne: "?h \<noteq> 0" using assms(1) by simp
    have "?n + ?h - 1 = ?h * (q + 1) + (r - 1)" using pos n by (simp add: algebra_simps)
    moreover have "(?h * (q + 1) + (r - 1)) div ?h = (q + 1) + (r - 1) div ?h"
      by (rule div_mult_self4[OF ne])
    moreover have "(r - 1) div ?h = 0" using lt by simp
    ultimately show ?thesis by (simp add: q_def)
  qed
  show ?thesis
  proof (cases "?n = 0")
    case True
    then have "wal_records c mm = []" by (simp add: wal_records_def py_range_step_def assms(1))
    with True assms show ?thesis
      by (simp add: build_memtable_from_WAL_def MemTable_init_def MemTable_iter_def MemTable_len_def)
  next
    case False
    then have run: "build_memtable_from_WAL c fs partition_num =
        Inr (m, fs\<lparr>write_ahead := (write_ahead fs)(partition_num \<mapsto> mm)\<rparr>)"
      using assms(1,2) m(1) by (simp add: build_memtable_from_WAL_def)
    show ?thesis
      using run m(3) len dv ndv partial_record_in_wal_records[OF assms(1)] by auto
  qed
qed

lemma wal33_records:
  "wal_records spec_constants (replicate 32 0 @ [1]) = [replicate 32 0, [1]]"
proof -
  have u: "[0..<2] = [0, Suc 0]" by (simp add: numeral_2_eq_2)
  have d: "(33 + 32 - 1) div 32 = (2 :: nat)" by simp
  show ?thesis
    by (simp add: wal_records_def spec_constants_def py_range_step_def slice_def u)
qed

lemma lt33: "replicate 32 (0 :: byte) < [1]"
  by (simp add: eval_nat_numeral)

text \<open>A log of 33 bytes with records of 32 bytes: the memtable has two keys, one of
  them the single last byte.\<close>

theorem wal_partial_record_counterexample:
  "build_memtable_from_WAL spec_constants
     \<lparr>db = Map.empty, write_ahead = [1 \<mapsto> replicate 32 0 @ [1]]\<rparr> 1 =
   Inr (\<lparr>root = Node False NIL (replicate 32 0) (Node True NIL [1] NIL), elements = 2\<rparr>,
        \<lparr>db = Map.empty, write_ahead = [1 \<mapsto> replicate 32 0 @ [1]]\<rparr>)
   \<and> length (replicate 32 (0 :: byte) @ [1]) div 32 = 1"
proof -
  have ne: "replicate 32 (0 :: byte) \<noteq> [1]"
    using lt33 by simp
  have gt: "\<not> [1] < replicate 32 (0 :: byte)"
    using lt33 by simp
  have h: "0 < HASH_SIZE spec_constants" by (simp add: spec_constants_def)
  show ?thesis
    using ne gt h
    by (simp add: build_memtable_from_WAL_def wal33_records MemTable_insert_def MemTable_init_def
          Let_def)
qed

theorem wal_recovery_keeps_partial_record_witness:
  "\<exists>memtable fs'. build_memtable_from_WAL spec_constants
         \<lparr>db = Map.empty, write_ahead = [1 \<mapsto> replicate 32 0 @ [1]]\<rparr> 1 = Inr (memtable, fs')
      \<and> MemTable_len memtable = 2 \<and> [1] \<in> set (MemTable_iter memtable)"
proof -
  let ?fs = "\<lparr>db = Map.empty, write_ahead = [1 \<mapsto> replicate 32 (0 :: byte) @ [1]]\<rparr>"
  have h: "0 < HASH_SIZE spec_constants" by (simp add: spec_constants_def)
  have w: "write_ahead ?fs 1 = Some (replicate 32 0 @ [1])" by simp
  have ne: "replicate 32 (0 :: byte) \<noteq> [1]" using lt33 by simp
  have d: "distinct (wal_records spec_constants (replicate 32 0 @ [1]))"
    using ne by (simp add: wal33_records)
  have nd: "\<not> HASH_SIZE spec_constants dvd length (replicate 32 (0 :: byte) @ [1])"
    by (simp add: spec_constants_def)
  from wal_recovery_keeps_partial_record[OF h w d] nd
  show ?thesis by (auto simp: spec_constants_def)
qed

section \<open>Verification: the prefix handlers\<close>

lemma getitem_IndexError_iff:
  "getitem xs i = Inl IndexError \<longleftrightarrow> (int (length xs) \<le> i \<or> i < - int (length xs))"
  by (auto simp: getitem_def py_index_def)

lemma getitem_Inl: "getitem xs i = Inl e \<Longrightarrow> e = IndexError"
  by (auto simp: getitem_def py_index_def split: if_splits)

lemma getitem_cases:
  "(\<exists>x. getitem xs i = Inr x) \<or> getitem xs i = Inl IndexError"
  by (auto simp: getitem_def py_index_def)

text \<open>
  Claim C9, amended. With \<open>P\<close> memtables and \<open>P\<close> readers, as \<open>lifespan\<close> creates them, a
  request for a partition above \<open>P\<close>, or at most \<open>-P\<close>, makes either handler raise
  \<open>IndexError\<close>: the answer has status 500, and no prefix data.
\<close>

theorem prefix_handlers_out_of_range:
  assumes "length (memtables st) = nat (PARTITIONS c)"
    and "length (idx_readers st) = nat (PARTITIONS c)"
    and "0 \<le> PARTITIONS c"
    and "PARTITIONS c < partition_id \<or> partition_id \<le> - PARTITIONS c"
  shows "get_memtable_hash_prefixes st partition_id = Inl IndexError
         \<and> status_code (get_memtable_hash_prefixes st partition_id) = 500
         \<and> get_idx_hash_prefixes c st partition_id = Inl IndexError
         \<and> status_code (get_idx_hash_prefixes c st partition_id) = 500"
proof -
  have m: "getitem (memtables st) (partition_id - 1) = Inl IndexError"
    using assms(1,3,4) by (auto simp: getitem_IndexError_iff)
  have r: "getitem (idx_readers st) (partition_id - 1) = Inl IndexError"
    using assms(2,3,4) by (auto simp: getitem_IndexError_iff)
  show ?thesis
    by (simp add: get_memtable_hash_prefixes_def get_idx_hash_prefixes_def m r)
qed

lemma lifespan_lengths:
  "recover_memtables c fs ns = Inr (ms, fs') \<Longrightarrow> length ms = length ns"
proof (induction ns arbitrary: fs ms)
  case Nil
  then show ?case by simp
next
  case (Cons n ns)
  then show ?case by (auto split: sum.splits prod.splits)
qed

theorem prefix_handlers_out_of_range_witness:
  "get_memtable_hash_prefixes
     \<lparr>idx_readers = map IndexReader_init [1, 2, 3, 4],
      memtables = [MemTable_init, MemTable_init, MemTable_init,
                   \<lparr>root = Node False NIL (200 # replicate 31 7) NIL, elements = 1\<rparr>],
      files = \<lparr>db = Map.empty, write_ahead = Map.empty\<rparr>\<rparr> 5 = Inl IndexError
   \<and> get_idx_hash_prefixes spec_constants
     \<lparr>idx_readers = map IndexReader_init [1, 2, 3, 4],
      memtables = [MemTable_init, MemTable_init, MemTable_init,
                   \<lparr>root = Node False NIL (200 # replicate 31 7) NIL, elements = 1\<rparr>],
      files = \<lparr>db = Map.empty, write_ahead = Map.empty\<rparr>\<rparr> 5 = Inl IndexError"
  using prefix_handlers_out_of_range
    [of "\<lparr>idx_readers = map IndexReader_init [1, 2, 3, 4],
          memtables = [MemTable_init, MemTable_init, MemTable_init,
                       \<lparr>root = Node False NIL (200 # replicate 31 7) NIL, elements = 1\<rparr>],
          files = \<lparr>db = Map.empty, write_ahead = Map.empty\<rparr>\<rparr>" spec_constants 5]
  by (simp add: spec_constants_def)

text \<open>With four partitions, a request for partition 0 is answered with status 200 and the
  prefixes of the memtable of partition 4, and a request for partition 5 with status
  500.\<close>

theorem prefix_handlers_counterexample:
  "get_memtable_hash_prefixes
     \<lparr>idx_readers = map IndexReader_init [1, 2, 3, 4],
      memtables = [MemTable_init, MemTable_init, MemTable_init,
                   \<lparr>root = Node False NIL (200 # replicate 31 7) NIL, elements = 1\<rparr>],
      files = \<lparr>db = Map.empty, write_ahead = Map.empty\<rparr>\<rparr> 0
     = Inr (Response 200 (Octets [200, 7, 7, 7]))
   \<and> status_code (get_memtable_hash_prefixes
     \<lparr>idx_readers = map IndexReader_init [1, 2, 3, 4],
      memtables = [MemTable_init, MemTable_init, MemTable_init,
                   \<lparr>root = Node False NIL (200 # replicate 31 7) NIL, elements = 1\<rparr>],
      files = \<lparr>db = Map.empty, write_ahead = Map.empty\<rparr>\<rparr> 5) = 500"
  by (simp add: get_memtable_hash_prefixes_def getitem_def py_index_def MemTable_iter_def
        eval_nat_numeral)

section \<open>Verification: range lookup in the index files\<close>

lemma upper_search_bounds:
  "low \<le> high \<Longrightarrow>
   low \<le> upper_search h data ub low high \<and> upper_search h data ub low high \<le> high"
proof (induction h data ub low high rule: upper_search.induct)
  case (1 h data ub low high)
  show ?case
  proof (cases "low < high")
    case False
    with "1.prems" show ?thesis by (subst (1 2) upper_search.simps) simp
  next
    case True
    let ?mid = "drop_bit 1 (low + high)"
    have mid: "low \<le> ?mid" "?mid < high" using True by (simp_all add: drop_bit_eq_div)
    show ?thesis
    proof (cases "hash_at h data ?mid \<le> ub")
      case le: True
      from "1.IH"(1)[OF True refl refl le] mid
      have "?mid + 1 \<le> upper_search h data ub (?mid + 1) high
            \<and> upper_search h data ub (?mid + 1) high \<le> high"
        by simp
      moreover have "upper_search h data ub low high = upper_search h data ub (?mid + 1) high"
        using True le by (subst upper_search.simps) (simp add: Let_def)
      ultimately show ?thesis using mid by simp
    next
      case gt: False
      from "1.IH"(2)[OF True refl refl gt] mid
      have "low \<le> upper_search h data ub low ?mid \<and> upper_search h data ub low ?mid \<le> ?mid"
        by simp
      moreover have "upper_search h data ub low high = upper_search h data ub low ?mid"
        using True gt by (subst upper_search.simps) (simp add: Let_def)
      ultimately show ?thesis using mid by simp
    qed
  qed
qed

lemma length_slice_le: "length (slice xs a b) \<le> b"
  by (simp add: slice_def)

text \<open>
  Claim C2, as the code has it. Both searches of \<open>range_lookup\<close> run on the indices
  \<open>0 .. hashes_per_idx - 1\<close>, so the upper index is at most \<open>hashes_per_idx - 1\<close> and
  a file adds the hashes below that index only: at most \<open>hashes_per_idx - 1\<close> of
  them, never the last hash of a full file, whatever the bounds are.
\<close>

theorem idx_range_lookup_misses_last:
  assumes "1 \<le> HASHES_PER_IDX c"
  shows "length (range_lookup_file c data lower_bound upper_bound)
           \<le> (nat (HASHES_PER_IDX c) - 1) * HASH_SIZE c"
proof -
  let ?u = "upper_search (HASH_SIZE c) data upper_bound 0 (HASHES_PER_IDX c - 1)"
  from assms upper_search_bounds[of 0 "HASHES_PER_IDX c - 1" "HASH_SIZE c" data upper_bound]
  have u: "0 \<le> ?u" "?u \<le> HASHES_PER_IDX c - 1" by simp_all
  have "length (range_lookup_file c data lower_bound upper_bound) \<le> nat (?u * int (HASH_SIZE c))"
    by (simp add: range_lookup_file_def Let_def length_slice_le)
  also have "\<dots> = nat ?u * HASH_SIZE c"
    using u(1) by (simp add: nat_mult_distrib)
  also have "\<dots> \<le> (nat (HASHES_PER_IDX c) - 1) * HASH_SIZE c"
  proof -
    from u assms have "nat ?u \<le> nat (HASHES_PER_IDX c) - 1" by linarith
    then show ?thesis by (rule mult_le_mono1)
  qed
  finally show ?thesis .
qed

text \<open>With two hashes of one byte per file: the file \<open>1, 2\<close> gives only \<open>1\<close> for the
  bounds \<open>1\<close> and \<open>2\<close>, and the files \<open>1, 2\<close> and \<open>3, 4\<close> give only \<open>3\<close> for the
  bounds \<open>2\<close> and \<open>4\<close>.\<close>

theorem idx_range_lookup_misses_last_witness:
  "range_lookup_file \<lparr>HASH_SIZE = 1, PREFIX_SIZE = 1, HASHES_PER_IDX = 2, PARTITIONS = 4,
       PARTITION_NUM = (\<lambda>b. drop_bit 6 b)\<rparr> [1, 2] [1] [2] = [1]
   \<and> IndexReader_range_lookup \<lparr>HASH_SIZE = 1, PREFIX_SIZE = 1, HASHES_PER_IDX = 2, PARTITIONS = 4,
       PARTITION_NUM = (\<lambda>b. drop_bit 6 b)\<rparr>
       \<lparr>db = [1 \<mapsto> [[1, 2], [3, 4]]], write_ahead = Map.empty\<rparr> (IndexReader_init 1) [2] [4] = [3]"
proof -
  let ?c = "\<lparr>HASH_SIZE = 1, PREFIX_SIZE = 1, HASHES_PER_IDX = 2, PARTITIONS = 4,
       PARTITION_NUM = (\<lambda>b. drop_bit 6 b)\<rparr>"
  have a: "range_lookup_file ?c [1, 2] [1] [2] = [1]"
    by code_simp
  have b: "range_lookup_file ?c [1, 2] [2] [4] = []"
    by code_simp
  have d: "range_lookup_file ?c [3, 4] [2] [4] = [3]"
    by code_simp
  from idx_range_lookup_misses_last[of ?c "[1, 2]" "[1]" "[2]"]
  have "length (range_lookup_file ?c [1, 2] [1] [2]) \<le> 1" by simp
  with a b d show ?thesis
    by (simp add: IndexReader_range_lookup_def idx_files_of_def IndexReader_init_def)
qed

section \<open>Verification: submission and flush\<close>

lemma insert_search_None_iff:
  "insert_search key t path = None \<longleftrightarrow> get_loop key t \<noteq> None"
  by (induction key t path rule: insert_search.induct) auto

lemma insert_new_key:
  assumes "\<not> MemTable_contains m key" and "MemTable_insert m key = Inr (flag, m')"
  shows "flag \<and> MemTable_len m' = MemTable_len m + 1"
proof (cases "elements m = 0")
  case True
  with assms(2) show ?thesis by (auto simp: MemTable_insert_def MemTable_len_def)
next
  case False
  from assms(1) have "insert_search key (root m) [] \<noteq> None"
    by (simp add: insert_search_None_iff MemTable_contains_def MemTable_get_def)
  then obtain path where p: "insert_search key (root m) [] = Some path" by auto
  with False assms(2) show ?thesis
    by (auto simp: MemTable_insert_def MemTable_len_def split: list.splits frame.splits sum.splits)
qed

lemma getitem_setitem:
  "setitem xs i v = Inr ys \<Longrightarrow> getitem ys i = Inr v"
  by (auto simp: setitem_def getitem_def py_index_def split: if_splits)

text \<open>
  Claim C1, as the code has it. A submission that is answered with 200 leaves the
  memtable of its partition with one key more than before, whether it flushed or not:
  the flush writes the index file and empties the log, and nothing empties the
  memtable.
\<close>

theorem submit_keeps_memtable:
  assumes "submit_malicious_url c st (b # rest) = Inr (Response 200 body, st')"
    and "getitem (memtables st) (PARTITION_NUM c (uint b)) = Inr memtable"
  shows "\<exists>memtable'. getitem (memtables st') (PARTITION_NUM c (uint b)) = Inr memtable'
           \<and> MemTable_len memtable' = MemTable_len memtable + 1"
proof -
  let ?p = "PARTITION_NUM c (uint b)"
  from assms(1) obtain reader where r: "getitem (idx_readers st) ?p = Inr reader"
    by (auto simp: submit_malicious_url_def Let_def split: sum.splits)
  from assms r have nc: "\<not> IndexReader_contains_hash c (files st) reader (b # rest)"
    "\<not> MemTable_contains memtable (b # rest)"
    by (auto simp: submit_malicious_url_def Let_def already_blacklisted_def split: if_splits)
  from assms r nc obtain flag memtable' where
    i: "MemTable_insert memtable (b # rest) = Inr (flag, memtable')"
    by (auto simp: submit_malicious_url_def Let_def split: sum.splits)
  from assms r nc i obtain ms where s: "setitem (memtables st) ?p memtable' = Inr ms"
    by (auto simp: submit_malicious_url_def Let_def split: sum.splits)
  from assms r nc i s have "memtables st' = ms"
    by (auto simp: submit_malicious_url_def Let_def split: sum.splits if_splits)
  with getitem_setitem[OF s] insert_new_key[OF nc(2) i] show ?thesis by auto
qed

text \<open>
  With two hashes per index file and partition 2 holding one key: the second key is
  answered with 200, the flush writes both keys to the first index file of the
  directory and empties the log, and the memtable holds two keys afterwards. The third
  key then flushes again: a second index file with all three keys.
\<close>

theorem submit_keeps_memtable_witness:
  "\<exists>st' memtable'.
     submit_malicious_url
       \<lparr>HASH_SIZE = 2, PREFIX_SIZE = 1, HASHES_PER_IDX = 2, PARTITIONS = 4,
        PARTITION_NUM = (\<lambda>b. drop_bit 6 b)\<rparr>
       \<lparr>idx_readers = map IndexReader_init [1, 2, 3, 4],
        memtables = [MemTable_init, MemTable_init,
                     \<lparr>root = Node False NIL [128, 1] NIL, elements = 1\<rparr>, MemTable_init],
        files = \<lparr>db = [2 \<mapsto> [], 3 \<mapsto> []], write_ahead = [2 \<mapsto> [128, 1]]\<rparr>\<rparr>
       [128, 2] = Inr (Response 200 Json_null, st')
     \<and> db (files st') 2 = Some [[128, 1, 128, 2]]
     \<and> write_ahead (files st') 2 = Some []
     \<and> getitem (memtables st') 2 = Inr memtable'
     \<and> MemTable_len memtable' = 2"
proof -
  let ?c = "\<lparr>HASH_SIZE = 2, PREFIX_SIZE = 1, HASHES_PER_IDX = 2, PARTITIONS = 4,
        PARTITION_NUM = (\<lambda>b. drop_bit 6 b)\<rparr>"
  let ?m = "\<lparr>root = Node False NIL [128, 1] NIL, elements = 1\<rparr>"
  let ?st = "\<lparr>idx_readers = map IndexReader_init [1, 2, 3, 4],
        memtables = [MemTable_init, MemTable_init, ?m, MemTable_init],
        files = \<lparr>db = [2 \<mapsto> [], 3 \<mapsto> []], write_ahead = [2 \<mapsto> [128, 1]]\<rparr>\<rparr>"
  have e: "map_sum id (\<lambda>(r, st). (r, db (files st) 2, write_ahead (files st) 2))
             (submit_malicious_url ?c ?st [128, 2])
           = Inr (Response 200 Json_null, Some [[128, 1, 128, 2]], Some [])"
    by code_simp
  then obtain st' where
    s: "submit_malicious_url ?c ?st (128 # [2]) = Inr (Response 200 Json_null, st')"
    and d: "db (files st') 2 = Some [[128, 1, 128, 2]]"
    and w: "write_ahead (files st') 2 = Some []"
    by (cases "submit_malicious_url ?c ?st [128, 2]") auto
  have p: "PARTITION_NUM ?c (uint (128 :: byte)) = 2" by simp
  have g: "getitem (memtables ?st) (PARTITION_NUM ?c (uint (128 :: byte))) = Inr ?m"
    unfolding p by (simp add: getitem_def py_index_def)
  from submit_keeps_memtable[OF s g] obtain memtable' where
    "getitem (memtables st') 2 = Inr memtable'" "MemTable_len memtable' = MemTable_len ?m + 1"
    unfolding p by blast
  with s d w show ?thesis by (auto simp: MemTable_len_def)
qed

text \<open>Three keys for partition 2 on an empty server, two hashes per index file: each is
  answered with 200; the directory then holds an index file of two keys and one of
  three, the log is empty, and the memtable of the partition holds three keys.\<close>

lemma submit_three_keys:
  "map_sum id (\<lambda>(rs, st). (rs, db (files st) 2, write_ahead (files st) 2, map MemTable_len (memtables st)))
     (submit_all \<lparr>HASH_SIZE = 2, PREFIX_SIZE = 1, HASHES_PER_IDX = 2, PARTITIONS = 4,
                   PARTITION_NUM = (\<lambda>b. drop_bit 6 b)\<rparr>
        \<lparr>idx_readers = map IndexReader_init [1, 2, 3, 4],
         memtables = [MemTable_init, MemTable_init, MemTable_init, MemTable_init],
         files = \<lparr>db = [2 \<mapsto> [], 3 \<mapsto> []], write_ahead = Map.empty\<rparr>\<rparr>
        [[128, 1], [128, 2], [128, 3]])
   = Inr ([Response 200 Json_null, Response 200 Json_null, Response 200 Json_null],
          Some [[128, 1, 128, 2], [128, 1, 128, 2, 128, 3]], Some [], [0, 0, 3, 0])"
  by code_simp

section \<open>Verification: duplicate submissions\<close>

lemma read_records_length:
  "0 < h \<Longrightarrow> length data = n * h \<Longrightarrow> length (read_records h data) = n"
proof (induction h data arbitrary: n rule: read_records.induct)
  case (1 h data)
  show ?case
  proof (cases "data = []")
    case True
    with "1.prems" show ?thesis by (subst read_records.simps) simp
  next
    case False
    with "1.prems" obtain m where n: "n = Suc m" by (cases n) auto
    have "length (drop h data) = m * h" using "1.prems"(2) n by simp
    from "1.IH"[OF _ "1.prems"(1) this] False "1.prems"(1)
    have "length (read_records h (drop h data)) = m" by simp
    with False "1.prems"(1) n show ?thesis by (subst read_records.simps) simp
  qed
qed

lemma read_records_nth:
  "0 < h \<Longrightarrow> length data = n * h \<Longrightarrow> i < n \<Longrightarrow>
   read_records h data ! i = take h (drop (i * h) data)"
proof (induction h data arbitrary: n i rule: read_records.induct)
  case (1 h data)
  from "1.prems" have ne: "data \<noteq> []" by (cases n) auto
  from "1.prems" obtain m where n: "n = Suc m" by (cases n) auto
  have unf: "read_records h data = take h data # read_records h (drop h data)"
    using ne "1.prems"(1) by (subst read_records.simps) simp
  show ?case
  proof (cases i)
    case 0
    then show ?thesis by (simp add: unf)
  next
    case (Suc j)
    have len: "length (drop h data) = m * h" using "1.prems"(2) n by simp
    have j: "j < m" using Suc "1.prems"(3) n by simp
    from "1.IH"[OF _ "1.prems"(1) len j] ne "1.prems"(1)
    have "read_records h (drop h data) ! j = take h (drop (j * h) (drop h data))" by simp
    then show ?thesis by (simp add: unf Suc add.commute)
  qed
qed

lemma hash_at_idx_keys:
  assumes "0 < HASH_SIZE c" and "length data = n * HASH_SIZE c" and "0 \<le> i" and "i < int n"
  shows "hash_at (HASH_SIZE c) data i = idx_keys c data ! nat i"
proof -
  have "nat i < n" using assms(3,4) by simp
  from read_records_nth[OF assms(1,2) this]
  have "idx_keys c data ! nat i = take (HASH_SIZE c) (drop (nat i * HASH_SIZE c) data)"
    by (simp add: idx_keys_def)
  moreover have "nat (i * int (HASH_SIZE c)) = nat i * HASH_SIZE c"
    using assms(3) by (simp add: nat_mult_distrib)
  moreover have "nat (i * int (HASH_SIZE c) + int (HASH_SIZE c)) - nat (i * int (HASH_SIZE c))
                 = HASH_SIZE c"
    using assms(3) by (simp add: nat_add_distrib nat_mult_distrib)
  ultimately show ?thesis by (simp add: hash_at_def slice_def)
qed

lemma sorted_wrt_less_nth_mono:
  fixes ks :: "bytes list"
  assumes "sorted_wrt (<) ks" "i \<le> j" "j < length ks"
  shows "ks ! i \<le> ks ! j"
proof (cases "i = j")
  case True
  then show ?thesis by simp
next
  case False
  with assms(2) have "i < j" by simp
  from sorted_wrt_nth_less[OF assms(1) this assms(3)] show ?thesis by simp
qed

lemma contains_search_iff:
  fixes ks :: "bytes list"
  shows "sorted_wrt (<) ks \<Longrightarrow>
         (\<forall>i. 0 \<le> i \<longrightarrow> i < int (length ks) \<longrightarrow> hash_at h data i = ks ! nat i) \<Longrightarrow>
         0 \<le> low \<Longrightarrow> high < int (length ks) \<Longrightarrow>
         contains_search h data key low high \<longleftrightarrow>
           (\<exists>i. low \<le> i \<and> i \<le> high \<and> ks ! nat i = key)"
proof (induction h data key low high rule: contains_search.induct)
  case (1 h data key low high)
  note srt = "1.prems"(1) and H = "1.prems"(2) and low0 = "1.prems"(3) and high0 = "1.prems"(4)
  show ?case
  proof (cases "low \<le> high")
    case False
    then show ?thesis by (subst contains_search.simps) auto
  next
    case True
    define mid where "mid = drop_bit 1 (low + high)"
    have mid: "low \<le> mid" "mid \<le> high" using True by (simp_all add: mid_def drop_bit_eq_div)
    have mid0: "0 \<le> mid" "mid < int (length ks)" using mid low0 high0 by simp_all
    have hm: "hash_at h data mid = ks ! nat mid" using H mid0 by simp
    have step: "contains_search h data key low high =
        (if key = hash_at h data mid then True
         else if key < hash_at h data mid then contains_search h data key low (mid - 1)
         else contains_search h data key (mid + 1) high)"
      unfolding mid_def by (subst contains_search.simps) (simp only: True Let_def if_True)
    show ?thesis
    proof (cases "key = ks ! nat mid")
      case eq: True
      have "contains_search h data key low high"
        by (subst step) (use eq hm in simp)
      moreover have "\<exists>i. low \<le> i \<and> i \<le> high \<and> ks ! nat i = key"
        using mid eq by blast
      ultimately show ?thesis by simp
    next
      case ne: False
      show ?thesis
      proof (cases "key < ks ! nat mid")
        case lt: True
        have unf: "contains_search h data key low high = contains_search h data key low (mid - 1)"
          by (subst step) (use ne lt hm in simp)
        have ih: "contains_search h data key low (mid - 1) \<longleftrightarrow>
                  (\<exists>i. low \<le> i \<and> i \<le> mid - 1 \<and> ks ! nat i = key)"
          using "1.IH"(1)[OF True refl refl _ _ srt H low0, folded mid_def] ne lt hm mid0 by simp
        have "(\<exists>i. low \<le> i \<and> i \<le> mid - 1 \<and> ks ! nat i = key) \<longleftrightarrow>
              (\<exists>i. low \<le> i \<and> i \<le> high \<and> ks ! nat i = key)"
        proof
          assume "\<exists>i. low \<le> i \<and> i \<le> mid - 1 \<and> ks ! nat i = key"
          then obtain i where i: "low \<le> i" "i \<le> mid - 1" "ks ! nat i = key" by blast
          from i(2) mid(2) have "i \<le> high" by linarith
          with i show "\<exists>i. low \<le> i \<and> i \<le> high \<and> ks ! nat i = key" by blast
        next
          assume "\<exists>i. low \<le> i \<and> i \<le> high \<and> ks ! nat i = key"
          then obtain i where i: "low \<le> i" "i \<le> high" "ks ! nat i = key" by blast
          have "i < mid"
          proof (rule ccontr)
            assume "\<not> i < mid"
            then have "nat mid \<le> nat i" using mid0 by simp
            moreover have "nat i < length ks" using i low0 high0 by simp
            ultimately have "ks ! nat mid \<le> ks ! nat i"
              using sorted_wrt_less_nth_mono[OF srt] by blast
            with i(3) lt show False by simp
          qed
          then have "i \<le> mid - 1" by linarith
          with i show "\<exists>i. low \<le> i \<and> i \<le> mid - 1 \<and> ks ! nat i = key" by blast
        qed
        with unf ih show ?thesis by simp
      next
        case nlt: False
        with ne have gt: "ks ! nat mid < key" by simp
        have unf: "contains_search h data key low high = contains_search h data key (mid + 1) high"
          by (subst step) (use ne nlt hm in simp)
        have ih: "contains_search h data key (mid + 1) high \<longleftrightarrow>
                  (\<exists>i. mid + 1 \<le> i \<and> i \<le> high \<and> ks ! nat i = key)"
          using "1.IH"(2)[OF True refl refl _ _ srt H _ high0, folded mid_def] ne nlt hm mid0 by simp
        have "(\<exists>i. mid + 1 \<le> i \<and> i \<le> high \<and> ks ! nat i = key) \<longleftrightarrow>
              (\<exists>i. low \<le> i \<and> i \<le> high \<and> ks ! nat i = key)"
        proof
          assume "\<exists>i. mid + 1 \<le> i \<and> i \<le> high \<and> ks ! nat i = key"
          then obtain i where i: "mid + 1 \<le> i" "i \<le> high" "ks ! nat i = key" by blast
          from i(1) mid(1) have "low \<le> i" by linarith
          with i show "\<exists>i. low \<le> i \<and> i \<le> high \<and> ks ! nat i = key" by blast
        next
          assume "\<exists>i. low \<le> i \<and> i \<le> high \<and> ks ! nat i = key"
          then obtain i where i: "low \<le> i" "i \<le> high" "ks ! nat i = key" by blast
          have "mid < i"
          proof (rule ccontr)
            assume "\<not> mid < i"
            then have "nat i \<le> nat mid" using mid0 by simp
            moreover have "nat mid < length ks" using mid0 by simp
            ultimately have "ks ! nat i \<le> ks ! nat mid"
              using sorted_wrt_less_nth_mono[OF srt] by blast
            with i(3) gt show False by simp
          qed
          then have "mid + 1 \<le> i" by linarith
          with i show "\<exists>i. mid + 1 \<le> i \<and> i \<le> high \<and> ks ! nat i = key" by blast
        qed
        with unf ih show ?thesis by simp
      qed
    qed
  qed
qed

lemma contains_search_idx_file:
  assumes h: "0 < HASH_SIZE c" and ok: "idx_file_ok c data"
  shows "contains_search (HASH_SIZE c) data key 0 (HASHES_PER_IDX c - 1)
           \<longleftrightarrow> key \<in> set (idx_keys c data)"
proof -
  let ?N = "HASHES_PER_IDX c" and ?ks = "idx_keys c data"
  from ok have len: "int (length data) = ?N * int (HASH_SIZE c)"
    and srt: "sorted_wrt (<) ?ks"
    by (simp_all add: idx_file_ok_def)
  have N0: "0 \<le> ?N"
  proof (rule ccontr)
    assume "\<not> 0 \<le> ?N"
    then have "?N * int (HASH_SIZE c) < 0" using h by (simp add: mult_less_0_iff)
    with len show False by simp
  qed
  have len': "length data = nat ?N * HASH_SIZE c"
  proof -
    have "int (length data) = int (nat ?N * HASH_SIZE c)" using len N0 by simp
    then show ?thesis by (simp only: of_nat_eq_iff)
  qed
  have lks: "length ?ks = nat ?N"
    using read_records_length[OF h len'] by (simp add: idx_keys_def)
  have H: "\<forall>i. 0 \<le> i \<longrightarrow> i < int (length ?ks) \<longrightarrow> hash_at (HASH_SIZE c) data i = ?ks ! nat i"
    using hash_at_idx_keys[OF h len'] lks by simp
  have hi: "?N - 1 < int (length ?ks)" using lks N0 by simp
  have "contains_search (HASH_SIZE c) data key 0 (?N - 1)
          \<longleftrightarrow> (\<exists>i. 0 \<le> i \<and> i \<le> ?N - 1 \<and> ?ks ! nat i = key)"
    by (rule contains_search_iff[OF srt H _ hi]) simp
  also have "\<dots> \<longleftrightarrow> key \<in> set ?ks"
  proof
    assume "\<exists>i. 0 \<le> i \<and> i \<le> ?N - 1 \<and> ?ks ! nat i = key"
    then obtain i where i: "0 \<le> i" "i \<le> ?N - 1" "?ks ! nat i = key" by blast
    then have "nat i < length ?ks" using lks by simp
    with i(3) show "key \<in> set ?ks" using nth_mem by blast
  next
    assume "key \<in> set ?ks"
    then obtain j where j: "j < length ?ks" "?ks ! j = key" by (auto simp: in_set_conv_nth)
    then have "0 \<le> int j \<and> int j \<le> ?N - 1 \<and> ?ks ! nat (int j) = key" using lks by simp
    then show "\<exists>i. 0 \<le> i \<and> i \<le> ?N - 1 \<and> ?ks ! nat i = key" by blast
  qed
  finally show ?thesis .
qed

lemma contains_hash_files_iff:
  "0 < HASH_SIZE c \<Longrightarrow> \<forall>data\<in>set fl. idx_file_ok c data \<Longrightarrow>
   contains_hash_files c fl key \<longleftrightarrow> list_ex (\<lambda>data. key \<in> set (idx_keys c data)) fl"
  by (induction fl) (simp_all add: contains_search_idx_file)

lemma submit_rejects:
  assumes "getitem (idx_readers st) (PARTITION_NUM c (uint b)) = Inr reader"
    and "getitem (memtables st) (PARTITION_NUM c (uint b)) = Inr memtable"
    and "IndexReader_contains_hash c (files st) reader (b # rest)
         \<or> MemTable_contains memtable (b # rest)"
  shows "submit_malicious_url c st (b # rest) = Inr (already_blacklisted, st)"
  using assms by (auto simp: submit_malicious_url_def Let_def)

lemma setitem_getitem_ok:
  "getitem xs i = Inr x \<Longrightarrow> \<exists>ys. setitem xs i v = Inr ys"
  by (auto simp: getitem_def setitem_def py_index_def split: if_splits)

lemma setitem_other:
  "setitem xs i v = Inr ys \<Longrightarrow> length ys = length xs"
  by (auto simp: setitem_def py_index_def split: if_splits)

text \<open>Within one run of the server a hash that was answered with 200 is answered with
  400 when it is submitted again, and the state is unchanged: the memtable still holds
  it.\<close>

lemma resubmission_rejected:
  assumes "submit_malicious_url c st (b # rest) = Inr (Response 200 body, st')"
    and "getitem (memtables st) (PARTITION_NUM c (uint b)) = Inr memtable"
    and "mt_inv memtable"
  shows "submit_malicious_url c st' (b # rest) = Inr (already_blacklisted, st')"
proof -
  let ?p = "PARTITION_NUM c (uint b)" and ?k = "b # rest"
  from assms(1) obtain reader where r: "getitem (idx_readers st) ?p = Inr reader"
    by (auto simp: submit_malicious_url_def Let_def split: sum.splits)
  from assms(1,2) r have nc: "\<not> IndexReader_contains_hash c (files st) reader ?k"
    "\<not> MemTable_contains memtable ?k"
    by (auto simp: submit_malicious_url_def Let_def already_blacklisted_def split: if_splits)
  from insert_inv[OF assms(3), of ?k] obtain flag m' where
    i: "MemTable_insert memtable ?k = Inr (flag, m')" "mt_inv m'"
       "set (MemTable_iter m') = Set.insert ?k (set (MemTable_iter memtable))"
    by blast
  from assms(1,2) r nc i(1) obtain ms where s: "setitem (memtables st) ?p m' = Inr ms"
    by (auto simp: submit_malicious_url_def Let_def split: sum.splits)
  from assms(1,2) r nc i(1) s have st': "memtables st' = ms" "idx_readers st' = idx_readers st"
    by (auto simp: submit_malicious_url_def Let_def split: sum.splits if_splits)
  have c': "MemTable_contains m' ?k" using i(2,3) by (simp add: contains_iff mt_inv_def)
  have g': "getitem (memtables st') ?p = Inr m'" using getitem_setitem[OF s] st'(1) by simp
  have r': "getitem (idx_readers st') ?p = Inr reader" using r st'(2) by simp
  show ?thesis by (rule submit_rejects[OF r' g']) (use c' in simp)
qed

text \<open>
  Claim C6, as the code has it. The handler names the directory of a flush and the
  write-ahead log by the number \<open>PARTITION_NUM\<close> returns, from 0, while the reader and the
  memtable at that position of their lists were created for the number one above. Two
  hashes of two bytes per index file, four partitions, the directories
  \<open>partition1\<close> to \<open>partition4\<close> empty. First: two hashes of partition 2 are answered with
  200, the second one flushing both into \<open>partition2/idx_001.bin\<close>; after a restart the
  first hash, which is in that index file, is answered with 200 again and not with 400.
  Second: two hashes of partition 0, both new, are submitted; the flush of the second one
  opens a file in \<open>partition0\<close>, which does not exist, and the request ends with
  \<open>FileNotFoundError\<close> and not with 200.
\<close>

theorem resubmission_after_restart_accepted:
  "(case lifespan \<lparr>HASH_SIZE = 2, PREFIX_SIZE = 1, HASHES_PER_IDX = 2, PARTITIONS = 4,
                    PARTITION_NUM = (\<lambda>b. drop_bit 6 b)\<rparr>
           \<lparr>db = [1 \<mapsto> [], 2 \<mapsto> [], 3 \<mapsto> [], 4 \<mapsto> []], write_ahead = Map.empty\<rparr> of
      Inl e \<Rightarrow> None
    | Inr st0 \<Rightarrow>
        (case submit_all \<lparr>HASH_SIZE = 2, PREFIX_SIZE = 1, HASHES_PER_IDX = 2, PARTITIONS = 4,
                    PARTITION_NUM = (\<lambda>b. drop_bit 6 b)\<rparr> st0 [[128, 1], [128, 2]] of
           Inl e \<Rightarrow> None
         | Inr (rs, st1) \<Rightarrow>
             (case lifespan \<lparr>HASH_SIZE = 2, PREFIX_SIZE = 1, HASHES_PER_IDX = 2, PARTITIONS = 4,
                    PARTITION_NUM = (\<lambda>b. drop_bit 6 b)\<rparr> (files st1) of
                Inl e \<Rightarrow> None
              | Inr st2 \<Rightarrow>
                  Some (rs, db (files st1) 2, write_ahead (files st1) 2,
                        map_sum id fst (submit_malicious_url
                           \<lparr>HASH_SIZE = 2, PREFIX_SIZE = 1, HASHES_PER_IDX = 2, PARTITIONS = 4,
                            PARTITION_NUM = (\<lambda>b. drop_bit 6 b)\<rparr> st2 [128, 1])))))
   = Some ([Response 200 Json_null, Response 200 Json_null],
           Some [[128, 1, 128, 2]], Some [], Inr (Response 200 Json_null))
   \<and> (case lifespan \<lparr>HASH_SIZE = 2, PREFIX_SIZE = 1, HASHES_PER_IDX = 2, PARTITIONS = 4,
                    PARTITION_NUM = (\<lambda>b. drop_bit 6 b)\<rparr>
           \<lparr>db = [1 \<mapsto> [], 2 \<mapsto> [], 3 \<mapsto> [], 4 \<mapsto> []], write_ahead = Map.empty\<rparr> of
      Inl e \<Rightarrow> None
    | Inr st0 \<Rightarrow>
        Some (map_sum id fst (submit_all
                \<lparr>HASH_SIZE = 2, PREFIX_SIZE = 1, HASHES_PER_IDX = 2, PARTITIONS = 4,
                 PARTITION_NUM = (\<lambda>b. drop_bit 6 b)\<rparr> st0 [[1, 1], [1, 2]])))
   = Some (Inl FileNotFoundError)"
  by code_simp

text \<open>The same without a flush: one hash of partition 2 is answered with 200 and
  appended to \<open>partition2.bin\<close>; after a restart that log is read into the memtable at
  position 1, and the hash is answered with 200 again.\<close>

lemma resubmission_after_restart_from_log:
  "(case lifespan \<lparr>HASH_SIZE = 2, PREFIX_SIZE = 1, HASHES_PER_IDX = 2, PARTITIONS = 4,
                    PARTITION_NUM = (\<lambda>b. drop_bit 6 b)\<rparr>
           \<lparr>db = [1 \<mapsto> [], 2 \<mapsto> [], 3 \<mapsto> [], 4 \<mapsto> []], write_ahead = Map.empty\<rparr> of
      Inl e \<Rightarrow> None
    | Inr st0 \<Rightarrow>
        (case submit_all \<lparr>HASH_SIZE = 2, PREFIX_SIZE = 1, HASHES_PER_IDX = 2, PARTITIONS = 4,
                    PARTITION_NUM = (\<lambda>b. drop_bit 6 b)\<rparr> st0 [[128, 1]] of
           Inl e \<Rightarrow> None
         | Inr (rs, st1) \<Rightarrow>
             (case lifespan \<lparr>HASH_SIZE = 2, PREFIX_SIZE = 1, HASHES_PER_IDX = 2, PARTITIONS = 4,
                    PARTITION_NUM = (\<lambda>b. drop_bit 6 b)\<rparr> (files st1) of
                Inl e \<Rightarrow> None
              | Inr st2 \<Rightarrow>
                  Some (rs, write_ahead (files st1) 2, map MemTable_iter (memtables st2),
                        map_sum id fst (submit_malicious_url
                           \<lparr>HASH_SIZE = 2, PREFIX_SIZE = 1, HASHES_PER_IDX = 2, PARTITIONS = 4,
                            PARTITION_NUM = (\<lambda>b. drop_bit 6 b)\<rparr> st2 [128, 1])))))
   = Some ([Response 200 Json_null], Some [128, 1], [[], [[128, 1]], [], []],
           Inr (Response 200 Json_null))"
  by code_simp

end
